theory Spec2Isabelle
  imports Main "HOL-Library.Sublist"
begin

section \<open>Dynamic values, keys and compute functions\<close>

text \<open>
  Keys and values of the Go package are \<^verbatim>\<open>interface{}\<close>. A key is any hashable
  value; the examples use integers and strings. A value is \<^verbatim>\<open>nil\<close>, a client value,
  or a pointer to one of the package's own objects. The objects are owned by the place
  that points to them (a cell by its map entry, a child cache by its cell), so a pointer
  is modelled by the object it points to, and a mutation through the pointer by writing
  the changed object back to that place.

  \<^item> \<open>Value done v\<close> is \<^verbatim>\<open>Value{once, value}\<close>: \<open>done\<close> is the state of the
    \<^verbatim>\<open>sync.Once\<close>, \<open>v\<close> the field \<^verbatim>\<open>value\<close>.
  \<^item> \<open>DMap m\<close> is a \<^verbatim>\<open>*Map\<close> (equally a \<^verbatim>\<open>*Cache\<close> on a \<^verbatim>\<open>sync.Map\<close>);
    \<open>m\<close> is the content of its \<^verbatim>\<open>sync.Map\<close>, the entries in the order of their insertion
    (\<^verbatim>\<open>Range\<close> visits them in an order of its own, see \<open>sm_Range\<close>).
  \<^item> \<open>DRRCache m maxSize targetNum\<close> is a \<^verbatim>\<open>*RRCache\<close>; its \<^verbatim>\<open>currentSize\<close> pointer
    is the shared counter of the world below.
  The only store into these \<^verbatim>\<open>sync.Map\<close>s is \<^verbatim>\<open>LoadOrStore(key, &Value{})\<close>, so their
  values are cells.
\<close>

datatype key = KInt int | KStr string

datatype dyn =
    DNil
  | DInt int
  | DStr string
  | DValue val
  | DMap "(key \<times> val) list"
  | DRRCache "(key \<times> val) list" int int
and val = Value (once_done: bool) (cell_value: dyn)

type_synonym syncmap = "(key \<times> val) list"

datatype panic = PathNotGiven | PruneWholeTree | TypeAssertion | ComputePanic | NilDereference

datatype outcome = Returns dyn | Panics

text \<open>
  A compute function of a client: an identity, so that its invocations can be counted,
  and what it does when called. The world records every invocation in call order. It also
  holds what the run time decides: \<^verbatim>\<open>sync.Map.Range\<close> visits the entries in no specified
  order, and \<open>range_order w n\<close> gives the order of the \<open>n\<close>-th \<^verbatim>\<open>Range\<close> of the run
  (see \<open>visit_order\<close> below); \<open>ranges\<close> counts the \<^verbatim>\<open>Range\<close>s made so far.
\<close>

record compute =
  fid :: nat
  out :: outcome

record world =
  calls :: "nat list"
  currentSize :: int
  draws :: nat
  ranges :: nat
  range_order :: "nat \<Rightarrow> nat \<Rightarrow> nat"

definition call :: "compute \<Rightarrow> world \<Rightarrow> outcome \<times> world" where
  "call f w = (out f, w\<lparr>calls := calls w @ [fid f]\<rparr>)"

section \<open>The cell: \<^verbatim>\<open>Value.LoadOrCall\<close>\<close>

text \<open>
  \<^verbatim>\<open>e.once.Do(func() { e.value = getValue() }); return e.value\<close>.
  \<^verbatim>\<open>sync.Once.Do\<close> marks the once as done when the function returns and also when it
  panics; in the latter case the assignment to \<^verbatim>\<open>e.value\<close> has not happened and the
  panic reaches the caller. The closure may change any state \<open>'s\<close>.
\<close>

definition new_Value :: val where
  "new_Value = Value False DNil"

definition Value_LoadOrCall ::
  "val \<Rightarrow> ('s \<Rightarrow> outcome \<times> 's) \<Rightarrow> 's \<Rightarrow> val \<times> 's \<times> (panic + dyn)" where
  "Value_LoadOrCall e getValue s =
     (if once_done e then (e, s, Inr (cell_value e))
      else (case getValue s of
              (Returns v, s') \<Rightarrow> (Value True v, s', Inr v)
            | (Panics, s') \<Rightarrow> (Value True (cell_value e), s', Inl ComputePanic)))"

section \<open>\<^verbatim>\<open>sync.Map\<close>\<close>

definition sm_Load :: "syncmap \<Rightarrow> key \<Rightarrow> val option" where
  "sm_Load m k = map_of m k"

definition sm_LoadOrStore :: "syncmap \<Rightarrow> key \<Rightarrow> val \<Rightarrow> syncmap \<times> val \<times> bool" where
  "sm_LoadOrStore m k v =
     (case map_of m k of
        Some a \<Rightarrow> (m, a, True)
      | None \<Rightarrow> (m @ [(k, v)], v, False))"

definition sm_Delete :: "syncmap \<Rightarrow> key \<Rightarrow> syncmap" where
  "sm_Delete m k = filter (\<lambda>kv. fst kv \<noteq> k) m"

text \<open>
  \<^verbatim>\<open>Range\<close> calls its function once for every entry that the map holds, in an order the
  run time chooses. The order is built from the list of the entries by inserting every
  entry at a chosen position among those that follow it: \<open>pos i\<close> is the position for the
  entry that has \<open>i\<close> entries after it. Every choice gives a permutation of the entries
  and every permutation is given by some choice. The callbacks of this package delete
  nothing but the entry they are visiting, so the entries visited are those the map held
  when \<^verbatim>\<open>Range\<close> was called.
\<close>

fun visit_order :: "(nat \<Rightarrow> nat) \<Rightarrow> 'a list \<Rightarrow> 'a list" where
  "visit_order pos [] = []"
| "visit_order pos (x # xs) =
     (let ys = visit_order pos xs; i = pos (length xs) in take i ys @ x # drop i ys)"

definition sm_Range :: "syncmap \<Rightarrow> world \<Rightarrow> (key \<times> val) list \<times> world" where
  "sm_Range m w = (visit_order (range_order w (ranges w)) m, w\<lparr>ranges := ranges w + 1\<rparr>)"

text \<open>Writing through the pointer to the cell stored under \<open>k\<close>, if it is still stored.\<close>

fun sm_poke :: "syncmap \<Rightarrow> key \<Rightarrow> val \<Rightarrow> syncmap" where
  "sm_poke [] k e = []"
| "sm_poke (kv # m) k e = (if fst kv = k then (k, e) # m else kv # sm_poke m k e)"

section \<open>\<^verbatim>\<open>Cache\<close> on a \<^verbatim>\<open>sync.Map\<close> (and the deprecated \<^verbatim>\<open>Map\<close>)\<close>

definition Cache_LoadOrCall ::
  "syncmap \<Rightarrow> key \<Rightarrow> compute \<Rightarrow> world \<Rightarrow> syncmap \<times> world \<times> (panic + dyn)" where
  "Cache_LoadOrCall m k getValue w =
     (case sm_LoadOrStore m k new_Value of
        (m1, e, loaded) \<Rightarrow>
          (case Value_LoadOrCall e (call getValue) w of
             (e', w', r) \<Rightarrow> (sm_poke m1 k e', w', r)))"

definition Cache_Delete :: "syncmap \<Rightarrow> key \<Rightarrow> syncmap" where
  "Cache_Delete m k = sm_Delete m k"

text \<open>A sequence of calls on one cell, and on one key of one cache; the results in order.\<close>

fun Value_LoadOrCalls ::
  "val \<Rightarrow> compute list \<Rightarrow> world \<Rightarrow> val \<times> world \<times> (panic + dyn) list" where
  "Value_LoadOrCalls e [] w = (e, w, [])"
| "Value_LoadOrCalls e (f # fs) w =
     (case Value_LoadOrCall e (call f) w of
        (e1, w1, r) \<Rightarrow>
          (case Value_LoadOrCalls e1 fs w1 of (e2, w2, rs) \<Rightarrow> (e2, w2, r # rs)))"

fun Cache_LoadOrCalls ::
  "syncmap \<Rightarrow> key \<Rightarrow> compute list \<Rightarrow> world \<Rightarrow> syncmap \<times> world \<times> (panic + dyn) list" where
  "Cache_LoadOrCalls m k [] w = (m, w, [])"
| "Cache_LoadOrCalls m k (f # fs) w =
     (case Cache_LoadOrCall m k f w of
        (m1, w1, r) \<Rightarrow>
          (case Cache_LoadOrCalls m1 k fs w1 of (m2, w2, rs) \<Rightarrow> (m2, w2, r # rs)))"

text \<open>What a cell holds after its first resolution with \<open>f\<close>, and what that call returned.\<close>

definition stored :: "compute \<Rightarrow> dyn" where
  "stored f = (case out f of Returns v \<Rightarrow> v | Panics \<Rightarrow> DNil)"

definition first_result :: "compute \<Rightarrow> panic + dyn" where
  "first_result f = (case out f of Returns v \<Rightarrow> Inr v | Panics \<Rightarrow> Inl ComputePanic)"

section \<open>\<^verbatim>\<open>RRCache\<close>\<close>

text \<open>
  \<^verbatim>\<open>atomic.AddInt32\<close> and the \<^verbatim>\<open>int32\<close> arithmetic of \<^verbatim>\<open>maybeEvict\<close> wrap around.
\<close>

definition wrap32 :: "int \<Rightarrow> int" where
  "wrap32 x = (x + 2 ^ 31) mod 2 ^ 32 - 2 ^ 31"

definition AddInt32 :: "int \<Rightarrow> world \<Rightarrow> world" where
  "AddInt32 d w = w\<lparr>currentSize := wrap32 (currentSize w + d)\<rparr>"

text \<open>
  The fields of an \<^verbatim>\<open>RRCache\<close>. The field \<^verbatim>\<open>currentSize\<close> points to the counter of the
  world; \<^verbatim>\<open>intn\<close> is the random source, a parameter \<open>intn\<close> of the functions below: its
  \<open>i\<close>-th call with argument \<open>n\<close> returns \<open>intn i n\<close>, and the world counts the calls.
\<close>

record rrcache =
  rr_m :: syncmap
  maxSize :: int
  targetNum :: int

definition NewRRCache :: "int \<Rightarrow> int \<Rightarrow> rrcache" where
  "NewRRCache maxSize' targetNum' = \<lparr>rr_m = [], maxSize = maxSize', targetNum = targetNum'\<rparr>"

text \<open>The type assertion \<^verbatim>\<open>value.(*RRCache)\<close> on an interface value.\<close>

definition as_RRCache :: "dyn \<Rightarrow> rrcache option" where
  "as_RRCache d =
     (case d of
        DRRCache m mx t \<Rightarrow> Some \<lparr>rr_m = m, maxSize = mx, targetNum = t\<rparr>
      | _ \<Rightarrow> None)"

text \<open>
  \<^verbatim>\<open>Delete\<close> and \<^verbatim>\<open>clear\<close>. \<^verbatim>\<open>Range\<close> visits the entries the map has when it starts,
  in the order \<open>sm_Range\<close> gives; the callback of \<^verbatim>\<open>clear\<close> removes only the entry it is
  visiting. The value that
  \<^verbatim>\<open>Load\<close> and \<^verbatim>\<open>Range\<close> hand out is the stored pointer to the cell, \<open>DValue value\<close>.
  The functions make the type assertion \<^verbatim>\<open>value.(*RRCache)\<close> on it where the code makes
  it, and call \<^verbatim>\<open>clear\<close> or \<^verbatim>\<open>maybeEvict\<close> of the child in the branch where it succeeds.
\<close>

function rr_Delete :: "rrcache \<Rightarrow> key \<Rightarrow> world \<Rightarrow> rrcache \<times> world"
  and rr_clear :: "rrcache \<Rightarrow> world \<Rightarrow> rrcache \<times> world"
  and rr_clear_Range :: "rrcache \<Rightarrow> (key \<times> val) list \<Rightarrow> world \<Rightarrow> rrcache \<times> world"
where
  "rr_Delete r k w =
     (case sm_Load (rr_m r) k of
        None \<Rightarrow> (r, w)
      | Some value \<Rightarrow>
          (let w1 = (case as_RRCache (DValue value) of
                       Some child \<Rightarrow> snd (rr_clear child w)
                     | None \<Rightarrow> w)
           in (r\<lparr>rr_m := sm_Delete (rr_m r) k\<rparr>, AddInt32 (- 1) w1)))"
| "rr_clear r w = (case sm_Range (rr_m r) w of (l, w0) \<Rightarrow> rr_clear_Range r l w0)"
| "rr_clear_Range r [] w = (r, w)"
| "rr_clear_Range r ((k, value) # rest) w =
     (let w1 = (case as_RRCache (DValue value) of
                  Some child \<Rightarrow> snd (rr_clear child w)
                | None \<Rightarrow> w)
      in (case rr_Delete r k w1 of (r2, w2) \<Rightarrow> rr_clear_Range r2 rest w2))"
  by pat_completeness auto
termination
  by (relation "measures [
        (\<lambda>x. case x of Inr (Inl _) \<Rightarrow> 1 | _ \<Rightarrow> 0),
        (\<lambda>x. case x of Inr (Inr (r, l, w)) \<Rightarrow> 1 + length l | _ \<Rightarrow> 0)]")
     (auto simp: as_RRCache_def)

text \<open>
  \<^verbatim>\<open>maybeEvict\<close>: at most five sweeps while the counter is above \<^verbatim>\<open>maxSize\<close>; a sweep
  is one \<^verbatim>\<open>Range\<close> over the map and draws one random number for every entry it visits.
\<close>

function rr_maybeEvict :: "(nat \<Rightarrow> int \<Rightarrow> int) \<Rightarrow> rrcache \<Rightarrow> world \<Rightarrow> rrcache \<times> world"
  and rr_evict_loop :: "(nat \<Rightarrow> int \<Rightarrow> int) \<Rightarrow> rrcache \<Rightarrow> nat \<Rightarrow> world \<Rightarrow> rrcache \<times> world"
  and rr_evict_Range ::
    "(nat \<Rightarrow> int \<Rightarrow> int) \<Rightarrow> rrcache \<Rightarrow> (key \<times> val) list \<Rightarrow> world \<Rightarrow> rrcache \<times> world"
where
  "rr_maybeEvict intn r w = rr_evict_loop intn r 0 w"
| "rr_evict_loop intn r count w =
     (if currentSize w > maxSize r
      then (if count + 1 > 5 then (r, w)
            else (case sm_Range (rr_m r) w of
                    (l, w0) \<Rightarrow>
                      (case rr_evict_Range intn r l w0 of
                         (r', w') \<Rightarrow> rr_evict_loop intn r' (count + 1) w')))
      else (r, w))"
| "rr_evict_Range intn r [] w = (r, w)"
| "rr_evict_Range intn r ((k, value) # rest) w =
     (let w1 = (case as_RRCache (DValue value) of
                  Some child \<Rightarrow> snd (rr_maybeEvict intn child w)
                | None \<Rightarrow> w);
          currentSize' = currentSize w1;
          numToEvict = wrap32 (currentSize' - targetNum r);
          randResult = wrap32 (intn (draws w1) currentSize');
          w2 = w1\<lparr>draws := draws w1 + 1\<rparr>
      in (case (if randResult < numToEvict then rr_Delete r k w2 else (r, w2)) of
            (r3, w3) \<Rightarrow> rr_evict_Range intn r3 rest w3))"
  by pat_completeness auto
termination
  by (relation "measures [
        (\<lambda>x. case x of Inl _ \<Rightarrow> 2 | Inr (Inl _) \<Rightarrow> 1 | Inr (Inr _) \<Rightarrow> 0),
        (\<lambda>x. case x of Inr (Inl (intn, r, count, w)) \<Rightarrow> 6 - count | _ \<Rightarrow> 0),
        (\<lambda>x. case x of Inr (Inr (intn, r, l, w)) \<Rightarrow> length l | _ \<Rightarrow> 0)]")
     (auto simp: as_RRCache_def)

text \<open>
  The callback of a sweep removes the entry it visits when the draw is below the number to
  evict, and \<^verbatim>\<open>Delete\<close> then finds the key stored.
\<close>

definition evicts :: "(nat \<Rightarrow> int \<Rightarrow> int) \<Rightarrow> rrcache \<Rightarrow> key \<Rightarrow> world \<Rightarrow> bool" where
  "evicts intn r k w \<longleftrightarrow>
     wrap32 (intn (draws w) (currentSize w)) < wrap32 (currentSize w - targetNum r)
     \<and> sm_Load (rr_m r) k \<noteq> None"

text \<open>
  \<^verbatim>\<open>RRCache.LoadOrCall\<close>. The closure given to the cell counts the new entry, runs the
  eviction pass on this cache and then calls \<open>getValue\<close>. The pass may delete the entry of
  the cell that is being resolved; the result is then written to a cell no map holds.
\<close>

definition rr_LoadOrCall ::
  "(nat \<Rightarrow> int \<Rightarrow> int) \<Rightarrow> rrcache \<Rightarrow> key \<Rightarrow> (world \<Rightarrow> outcome \<times> world) \<Rightarrow> world
     \<Rightarrow> rrcache \<times> world \<times> (panic + dyn)" where
  "rr_LoadOrCall intn r k getValue w =
     (case sm_LoadOrStore (rr_m r) k new_Value of
        (m1, e, loaded) \<Rightarrow>
          (case Value_LoadOrCall e
                  (\<lambda>(r1, w0).
                     case rr_maybeEvict intn r1 (AddInt32 1 w0) of
                       (r2, w2) \<Rightarrow> (case getValue w2 of (res, w3) \<Rightarrow> (res, (r2, w3))))
                  (r\<lparr>rr_m := m1\<rparr>, w) of
             (e', (r3, w3), res) \<Rightarrow> (r3\<lparr>rr_m := sm_poke (rr_m r3) k e'\<rparr>, w3, res)))"

text \<open>A sequence of \<^verbatim>\<open>LoadOrCall\<close>s on one \<^verbatim>\<open>RRCache\<close>.\<close>

fun rr_LoadOrCalls ::
  "(nat \<Rightarrow> int \<Rightarrow> int) \<Rightarrow> rrcache \<Rightarrow> (key \<times> compute) list \<Rightarrow> world \<Rightarrow> rrcache \<times> world" where
  "rr_LoadOrCalls intn r [] w = (r, w)"
| "rr_LoadOrCalls intn r (kf # rest) w =
     (case rr_LoadOrCall intn r (fst kf) (call (snd kf)) w of
        (r', w', res) \<Rightarrow> rr_LoadOrCalls intn r' rest w')"

section \<open>\<^verbatim>\<open>Map\<close> and the interface \<^verbatim>\<open>CacheInterface\<close>\<close>

definition Map_LoadOrCall ::
  "syncmap \<Rightarrow> key \<Rightarrow> (world \<Rightarrow> outcome \<times> world) \<Rightarrow> world \<Rightarrow> syncmap \<times> world \<times> (panic + dyn)" where
  "Map_LoadOrCall m k getValue w =
     (case sm_LoadOrStore m k new_Value of
        (m1, e, loaded) \<Rightarrow>
          (case Value_LoadOrCall e getValue w of
             (e', w', r) \<Rightarrow> (sm_poke m1 k e', w', r)))"

definition Map_Delete :: "syncmap \<Rightarrow> key \<Rightarrow> syncmap" where
  "Map_Delete m k = sm_Delete m k"

text \<open>The objects behind a \<^verbatim>\<open>CacheInterface\<close>, and the type assertion to it.\<close>

datatype cache = CMap syncmap | CRR rrcache

definition as_CacheInterface :: "dyn \<Rightarrow> cache option" where
  "as_CacheInterface d =
     (case d of
        DMap m \<Rightarrow> Some (CMap m)
      | DRRCache m mx t \<Rightarrow> Some (CRR \<lparr>rr_m = m, maxSize = mx, targetNum = t\<rparr>)
      | _ \<Rightarrow> None)"

definition cache_ptr :: "cache \<Rightarrow> dyn" where
  "cache_ptr c =
     (case c of
        CMap m \<Rightarrow> DMap m
      | CRR r \<Rightarrow> DRRCache (rr_m r) (maxSize r) (targetNum r))"

definition ci_LoadOrCall ::
  "(nat \<Rightarrow> int \<Rightarrow> int) \<Rightarrow> cache \<Rightarrow> key \<Rightarrow> (world \<Rightarrow> outcome \<times> world) \<Rightarrow> world
     \<Rightarrow> cache \<times> world \<times> (panic + dyn)" where
  "ci_LoadOrCall intn c k getValue w =
     (case c of
        CMap m \<Rightarrow> (case Map_LoadOrCall m k getValue w of (m', w', r) \<Rightarrow> (CMap m', w', r))
      | CRR r \<Rightarrow> (case rr_LoadOrCall intn r k getValue w of (r', w', res) \<Rightarrow> (CRR r', w', res)))"

definition ci_Delete :: "cache \<Rightarrow> key \<Rightarrow> world \<Rightarrow> cache \<times> world" where
  "ci_Delete c k w =
     (case c of
        CMap m \<Rightarrow> (CMap (Map_Delete m k), w)
      | CRR r \<Rightarrow> (case rr_Delete r k w of (r', w') \<Rightarrow> (CRR r', w')))"

text \<open>
  The child cache that the cell under \<open>k\<close> points to has changed to \<open>child\<close>: the cell,
  if the map still holds it, shows the changed object.
\<close>

definition ci_child_changed :: "cache \<Rightarrow> key \<Rightarrow> cache \<Rightarrow> cache" where
  "ci_child_changed c k child =
     (case c of
        CMap m \<Rightarrow> CMap (sm_poke m k (Value True (cache_ptr child)))
      | CRR r \<Rightarrow> CRR (r\<lparr>rr_m := sm_poke (rr_m r) k (Value True (cache_ptr child))\<rparr>))"

section \<open>\<^verbatim>\<open>MultiLevelMap\<close>\<close>

text \<open>
  \<open>mlm_newMap\<close> is the factory: \<open>None\<close> is the \<^verbatim>\<open>nil\<close> function of the zero value,
  \<open>Some t\<close> a factory whose every call returns a new object equal to \<open>t\<close>.
\<close>

record MultiLevelMap =
  mlm_v :: val
  mlm_newMap :: "dyn option"

definition zero_MultiLevelMap :: MultiLevelMap where
  "zero_MultiLevelMap = \<lparr>mlm_v = new_Value, mlm_newMap = None\<rparr>"

definition NewMultiLevelMap :: "dyn \<Rightarrow> MultiLevelMap" where
  "NewMultiLevelMap t = \<lparr>mlm_v = new_Value, mlm_newMap = Some t\<rparr>"

text \<open>Calling the factory; calling a \<^verbatim>\<open>nil\<close> function panics.\<close>

definition call_newMap :: "dyn option \<Rightarrow> world \<Rightarrow> outcome \<times> world" where
  "call_newMap nm w = (case nm of None \<Rightarrow> (Panics, w) | Some t \<Rightarrow> (Returns t, w))"

text \<open>
  \<^verbatim>\<open>findLeafNode\<close> returns a pointer to the node at the end of the path, and its callers
  call one operation of that node. Here the operation is the argument \<open>oper\<close>; on the way
  back every node on the path shows the change of its child.
\<close>

fun findLeafNode ::
  "(nat \<Rightarrow> int \<Rightarrow> int) \<Rightarrow> cache \<Rightarrow> dyn option \<Rightarrow> key list
     \<Rightarrow> (cache \<Rightarrow> world \<Rightarrow> cache \<times> world \<times> (panic + 'a)) \<Rightarrow> world
     \<Rightarrow> cache \<times> world \<times> (panic + 'a)" where
  "findLeafNode intn root nm [] oper w = oper root w"
| "findLeafNode intn root nm (p # path) oper w =
     (case ci_LoadOrCall intn root p (call_newMap nm) w of
        (root1, w1, Inl e) \<Rightarrow> (root1, w1, Inl e)
      | (root1, w1, Inr d) \<Rightarrow>
          (case as_CacheInterface d of
             None \<Rightarrow> (root1, w1, Inl TypeAssertion)
           | Some newRoot \<Rightarrow>
               (case findLeafNode intn newRoot nm path oper w1 of
                  (newRoot', w2, res) \<Rightarrow> (ci_child_changed root1 p newRoot', w2, res))))"

definition getRoot :: "MultiLevelMap \<Rightarrow> world \<Rightarrow> MultiLevelMap \<times> world \<times> (panic + cache)" where
  "getRoot mm w =
     (case Value_LoadOrCall (mlm_v mm)
             (\<lambda>(nm, w0). case nm of
                            None \<Rightarrow> (Returns (DMap []), (Some (DMap []), w0))
                          | Some t \<Rightarrow> (Returns t, (nm, w0)))
             (mlm_newMap mm, w) of
        (e, (nm, w1), res) \<Rightarrow>
          (\<lparr>mlm_v = e, mlm_newMap = nm\<rparr>, w1,
           (case res of
              Inl err \<Rightarrow> Inl err
            | Inr d \<Rightarrow> (case as_CacheInterface d of
                          None \<Rightarrow> Inl TypeAssertion
                        | Some root \<Rightarrow> Inr root))))"

text \<open>The root cell shows the change of the root.\<close>

definition root_changed :: "MultiLevelMap \<Rightarrow> cache \<Rightarrow> MultiLevelMap" where
  "root_changed mm root = mm\<lparr>mlm_v := Value True (cache_ptr root)\<rparr>"

text \<open>The operation that \<^verbatim>\<open>Prune\<close> and \<^verbatim>\<open>LoadOrCall\<close> apply to the node found.\<close>

definition Delete_at ::
  "key \<Rightarrow> cache \<Rightarrow> world \<Rightarrow> cache \<times> world \<times> (panic + unit)" where
  "Delete_at k leaf w0 = (case ci_Delete leaf k w0 of (leaf', w') \<Rightarrow> (leaf', w', Inr ()))"

definition LoadOrCall_at ::
  "(nat \<Rightarrow> int \<Rightarrow> int) \<Rightarrow> key \<Rightarrow> compute \<Rightarrow> cache \<Rightarrow> world \<Rightarrow> cache \<times> world \<times> (panic + dyn)" where
  "LoadOrCall_at intn k getValue leaf w0 = ci_LoadOrCall intn leaf k (call getValue) w0"

definition MultiLevelMap_LoadOrCall ::
  "(nat \<Rightarrow> int \<Rightarrow> int) \<Rightarrow> MultiLevelMap \<Rightarrow> compute \<Rightarrow> key list \<Rightarrow> world
     \<Rightarrow> MultiLevelMap \<times> world \<times> (panic + dyn)" where
  "MultiLevelMap_LoadOrCall intn mm getValue path w =
     (if length path = 0 then (mm, w, Inl PathNotGiven)
      else (case getRoot mm w of
              (mm1, w1, Inl err) \<Rightarrow> (mm1, w1, Inl err)
            | (mm1, w1, Inr root) \<Rightarrow>
                (case findLeafNode intn root (mlm_newMap mm1) (butlast path)
                        (LoadOrCall_at intn (last path) getValue) w1 of
                   (root', w2, res) \<Rightarrow> (root_changed mm1 root', w2, res))))"

definition MultiLevelMap_Prune ::
  "(nat \<Rightarrow> int \<Rightarrow> int) \<Rightarrow> MultiLevelMap \<Rightarrow> key list \<Rightarrow> world
     \<Rightarrow> MultiLevelMap \<times> world \<times> (panic + unit)" where
  "MultiLevelMap_Prune intn mm path w =
     (if length path = 0 then (mm, w, Inl PruneWholeTree)
      else (case getRoot mm w of
              (mm1, w1, Inl err) \<Rightarrow> (mm1, w1, Inl err)
            | (mm1, w1, Inr root) \<Rightarrow>
                (case findLeafNode intn root (mlm_newMap mm1) (butlast path)
                        (Delete_at (last path)) w1 of
                   (root', w2, res) \<Rightarrow> (root_changed mm1 root', w2, res))))"

section \<open>\<^verbatim>\<open>LRUMap\<close>\<close>

text \<open>
  An \<^verbatim>\<open>LRUMap\<close> shares its \<^verbatim>\<open>list.List\<close> with other \<^verbatim>\<open>LRUMap\<close>s, and every list element
  names the Go map that indexes it (\<^verbatim>\<open>keyValue.M\<close>), so the list elements and the Go maps
  live in a store and are named by addresses. \<open>llist\<close> is the shared list from front to
  back, \<open>lelems\<close> the \<^verbatim>\<open>keyValue\<close> of every element, \<open>lmaps\<close> the content of every Go map
  \<^verbatim>\<open>m\<close> (the entries in the order of their insertion), \<open>lfresh\<close> the next unused element
  address.

  A value stored in an \<^verbatim>\<open>LRUMap\<close> is any \<^verbatim>\<open>interface{}\<close>: a pointer to an \<^verbatim>\<open>LRUMap\<close>
  (the address of its \<^verbatim>\<open>m\<close> and its \<^verbatim>\<open>maxSize\<close>), a pointer to a cell \<^verbatim>\<open>Value\<close>, a pointer
  to a \<^verbatim>\<open>Cache\<close> on an \<^verbatim>\<open>LRUMap\<close>, or something else.
\<close>

datatype lru_value =
    LOther dyn
  | LLRUMap nat int
  | LCell bool lru_value
  | LCache nat int

record keyValue =
  kvM :: nat
  kvKey :: key
  kvValue :: lru_value

record LRUMap =
  lru_m :: nat
  lru_maxSize :: int

record lru_world =
  llist :: "nat list"
  lelems :: "nat \<Rightarrow> keyValue option"
  lmaps :: "nat \<Rightarrow> (key \<times> nat) list"
  lfresh :: nat

text \<open>The operations of \<^verbatim>\<open>container/list\<close> that the code uses.\<close>

definition list_MoveToFront :: "nat \<Rightarrow> nat list \<Rightarrow> nat list" where
  "list_MoveToFront e xs = (if e \<in> set xs then e # remove1 e xs else xs)"

definition list_Back :: "nat list \<Rightarrow> nat option" where
  "list_Back xs = (if xs = [] then None else Some (last xs))"

definition list_Remove :: "nat \<Rightarrow> nat list \<Rightarrow> nat list" where
  "list_Remove e xs = remove1 e xs"

definition map_delete :: "(key \<times> nat) list \<Rightarrow> key \<Rightarrow> (key \<times> nat) list" where
  "map_delete m k = filter (\<lambda>p. fst p \<noteq> k) m"

text \<open>
  The eviction loop of \<^verbatim>\<open>LoadOrStore\<close>. \<^verbatim>\<open>Back\<close> of an empty list is \<^verbatim>\<open>nil\<close>, and
  \<^verbatim>\<open>oldest.Value\<close> then panics; the second component says whether the loop ended
  without that.
\<close>

function lru_evict :: "LRUMap \<Rightarrow> lru_world \<Rightarrow> lru_world \<times> bool" where
  "lru_evict l w =
     (if int (length (llist w)) > lru_maxSize l
      then (case list_Back (llist w) of
              None \<Rightarrow> (w, False)
            | Some oldest \<Rightarrow>
                (case lelems w oldest of
                   None \<Rightarrow> (w, False)
                 | Some kv \<Rightarrow>
                     lru_evict l
                       (w\<lparr>lmaps := (lmaps w)(kvM kv := map_delete (lmaps w (kvM kv)) (kvKey kv)),
                          llist := list_Remove oldest (llist w)\<rparr>)))
      else (w, True))"
  by pat_completeness auto
termination
  by (relation "measure (\<lambda>(l, w). length (llist w))")
     (auto simp: list_Back_def list_Remove_def length_remove1 split: if_splits)

declare lru_evict.simps [simp del]

definition lru_LoadOrStore ::
  "LRUMap \<Rightarrow> key \<Rightarrow> lru_value \<Rightarrow> lru_world \<Rightarrow> lru_world \<times> (panic + lru_value \<times> bool)" where
  "lru_LoadOrStore l k v w =
     (case map_of (lmaps w (lru_m l)) k of
        Some e \<Rightarrow>
          (w\<lparr>llist := list_MoveToFront e (llist w)\<rparr>,
           (case lelems w e of
              Some kv \<Rightarrow> Inr (kvValue kv, True)
            | None \<Rightarrow> Inl NilDereference))
      | None \<Rightarrow>
          (let e = lfresh w;
               w1 = w\<lparr>llist := e # llist w,
                       lelems := (lelems w)(e \<mapsto> \<lparr>kvM = lru_m l, kvKey = k, kvValue = v\<rparr>),
                       lmaps := (lmaps w)(lru_m l := lmaps w (lru_m l) @ [(k, e)]),
                       lfresh := e + 1\<rparr>
           in (case lru_evict l w1 of
                 (w2, True) \<Rightarrow> (w2, Inr (v, False))
               | (w2, False) \<Rightarrow> (w2, Inl NilDereference))))"

text \<open>
  \<^verbatim>\<open>Delete\<close> and \<^verbatim>\<open>clear\<close>. \<^verbatim>\<open>Delete\<close> holds the mutex of its \<^verbatim>\<open>LRUMap\<close> while it
  clears a nested one, and \<^verbatim>\<open>clear\<close> calls \<^verbatim>\<open>Delete\<close> for every key; on a map that
  reaches itself this never returns. The loop \<^verbatim>\<open>for k := range l.m\<close> visits the keys in an
  order the run time chooses: \<open>ord a m\<close> gives the positions (as for \<open>visit_order\<close>) for the
  map at address \<open>a\<close> with the content \<open>m\<close>. The second argument bounds the depth of
  the calls; \<open>None\<close> is a call that has not returned within it.
\<close>

fun lru_Delete ::
    "(nat \<Rightarrow> (key \<times> nat) list \<Rightarrow> nat \<Rightarrow> nat) \<Rightarrow> nat \<Rightarrow> LRUMap \<Rightarrow> key \<Rightarrow> lru_world
       \<Rightarrow> lru_world option"
  and lru_clear ::
    "(nat \<Rightarrow> (key \<times> nat) list \<Rightarrow> nat \<Rightarrow> nat) \<Rightarrow> nat \<Rightarrow> LRUMap \<Rightarrow> key list \<Rightarrow> lru_world
       \<Rightarrow> lru_world option"
where
  "lru_Delete ord 0 l k w = None"
| "lru_Delete ord (Suc n) l k w =
     (case map_of (lmaps w (lru_m l)) k of
        None \<Rightarrow> Some w
      | Some e \<Rightarrow>
          (case (case map_option kvValue (lelems w e) of
                   Some (LLRUMap a mx) \<Rightarrow>
                     lru_clear ord n \<lparr>lru_m = a, lru_maxSize = mx\<rparr>
                       (visit_order (ord a (lmaps w a)) (map fst (lmaps w a))) w
                 | _ \<Rightarrow> Some w) of
             None \<Rightarrow> None
           | Some w1 \<Rightarrow>
               Some (w1\<lparr>llist := list_Remove e (llist w1),
                        lmaps := (lmaps w1)(lru_m l := map_delete (lmaps w1 (lru_m l)) k)\<rparr>)))"
| "lru_clear ord n ll [] w = Some w"
| "lru_clear ord n ll (k # ks) w =
     (case lru_Delete ord n ll k w of
        None \<Rightarrow> None
      | Some w1 \<Rightarrow> lru_clear ord n ll ks w1)"

text \<open>
  \<^verbatim>\<open>Cache.LoadOrCall\<close> on an \<^verbatim>\<open>LRUMap\<close>. The cell \<^verbatim>\<open>&Value{}\<close> is the value of a list
  element: of the element that the map has for the key, or of the new one. The element
  keeps the cell also when the eviction loop has removed it from the list.
\<close>

definition lru_cell_elem :: "LRUMap \<Rightarrow> key \<Rightarrow> lru_world \<Rightarrow> nat" where
  "lru_cell_elem l k w = (case map_of (lmaps w (lru_m l)) k of Some e \<Rightarrow> e | None \<Rightarrow> lfresh w)"

definition lru_set_cell :: "nat \<Rightarrow> lru_value \<Rightarrow> lru_world \<Rightarrow> lru_world" where
  "lru_set_cell e c w =
     w\<lparr>lelems := (lelems w)(e := map_option (\<lambda>kv. kv\<lparr>kvValue := c\<rparr>) (lelems w e))\<rparr>"

definition lru_Cache_LoadOrCall ::
  "LRUMap \<Rightarrow> key \<Rightarrow> compute \<Rightarrow> lru_world \<times> world
     \<Rightarrow> (lru_world \<times> world) \<times> (panic + lru_value)" where
  "lru_Cache_LoadOrCall l k getValue s =
     (case s of (lw, w) \<Rightarrow>
        (case lru_LoadOrStore l k (LCell False (LOther DNil)) lw of
           (lw1, Inl p) \<Rightarrow> ((lw1, w), Inl p)
         | (lw1, Inr (LCell done v, loaded)) \<Rightarrow>
             (if done then ((lw1, w), Inr v)
              else (case call getValue w of
                      (Returns x, w') \<Rightarrow>
                        ((lru_set_cell (lru_cell_elem l k lw) (LCell True (LOther x)) lw1, w'),
                         Inr (LOther x))
                    | (Panics, w') \<Rightarrow>
                        ((lru_set_cell (lru_cell_elem l k lw) (LCell True v) lw1, w'),
                         Inl ComputePanic)))
         | (lw1, Inr (_, loaded)) \<Rightarrow> ((lw1, w), Inl TypeAssertion)))"

fun lru_Cache_LoadOrCalls ::
  "LRUMap \<Rightarrow> key \<Rightarrow> compute list \<Rightarrow> lru_world \<times> world
     \<Rightarrow> (lru_world \<times> world) \<times> (panic + lru_value) list" where
  "lru_Cache_LoadOrCalls l k [] s = (s, [])"
| "lru_Cache_LoadOrCalls l k (f # fs) s =
     (case lru_Cache_LoadOrCall l k f s of
        (s1, r) \<Rightarrow> (case lru_Cache_LoadOrCalls l k fs s1 of (s2, rs) \<Rightarrow> (s2, r # rs)))"

section \<open>What a tree holds\<close>

text \<open>
  Reading a tree without changing it: the node that a path leads to through resolved
  cells holding caches, and the cell stored at a path.
\<close>

definition ci_m :: "cache \<Rightarrow> syncmap" where
  "ci_m c = (case c of CMap m \<Rightarrow> m | CRR r \<Rightarrow> rr_m r)"

fun node_at :: "cache \<Rightarrow> key list \<Rightarrow> cache option" where
  "node_at c [] = Some c"
| "node_at c (k # ks) =
     (case sm_Load (ci_m c) k of
        Some (Value True d) \<Rightarrow>
          (case as_CacheInterface d of Some c' \<Rightarrow> node_at c' ks | None \<Rightarrow> None)
      | _ \<Rightarrow> None)"

definition cell_at :: "cache \<Rightarrow> key list \<Rightarrow> val option" where
  "cell_at c path =
     (if path = [] then None
      else (case node_at c (butlast path) of
              Some n \<Rightarrow> sm_Load (ci_m n) (last path)
            | None \<Rightarrow> None))"

text \<open>
  A tree of the default backend: every cache in it is a \<^verbatim>\<open>Map\<close> and every cell is
  resolved.
\<close>

fun map_tree :: "dyn \<Rightarrow> bool" and map_tree_val :: "val \<Rightarrow> bool" where
  "map_tree (DMap m) = (\<forall>e \<in> snd ` set m. map_tree_val e)"
| "map_tree (DRRCache m mx t) = False"
| "map_tree DNil = True"
| "map_tree (DInt i) = True"
| "map_tree (DStr s) = True"
| "map_tree (DValue e) = True"
| "map_tree_val (Value b d) = (b \<and> map_tree d)"

text \<open>The cell stored at a path of a \<^verbatim>\<open>MultiLevelMap\<close> (none before the root exists).\<close>

definition mlm_cell_at :: "MultiLevelMap \<Rightarrow> key list \<Rightarrow> val option" where
  "mlm_cell_at mm path =
     (case mlm_v mm of
        Value True d \<Rightarrow>
          (case as_CacheInterface d of Some root \<Rightarrow> cell_at root path | None \<Rightarrow> None)
      | Value False d \<Rightarrow> None)"

text \<open>
  A \<^verbatim>\<open>MultiLevelMap\<close> on the default backend: the zero value (or one made with the
  factory of \<^verbatim>\<open>Map\<close>s) before its first use, or one whose root is a tree of \<^verbatim>\<open>Map\<close>s.
\<close>

definition default_mlm :: "MultiLevelMap \<Rightarrow> bool" where
  "default_mlm mm =
     (case mlm_v mm of
        Value True d \<Rightarrow> map_tree d \<and> as_CacheInterface d \<noteq> None \<and> mlm_newMap mm = Some (DMap [])
      | Value False d \<Rightarrow> mlm_newMap mm = None \<or> mlm_newMap mm = Some (DMap []))"

section \<open>The entries of a tree and the shared counter\<close>

text \<open>
  The number of map entries in a tree, those of the nested caches included, and the number
  of entries whose cell holds something that is not a cache.
\<close>

fun entries :: "dyn \<Rightarrow> nat" and entries_val :: "val \<Rightarrow> nat" where
  "entries (DMap m) = sum_list (map (\<lambda>e. 1 + entries_val e) (map snd m))"
| "entries (DRRCache m mx t) = sum_list (map (\<lambda>e. 1 + entries_val e) (map snd m))"
| "entries DNil = 0"
| "entries (DInt i) = 0"
| "entries (DStr s) = 0"
| "entries (DValue e) = 0"
| "entries_val (Value b d) = entries d"

fun leaf_entries :: "dyn \<Rightarrow> nat" and leaf_entries_val :: "val \<Rightarrow> nat" where
  "leaf_entries (DMap m) = sum_list (map leaf_entries_val (map snd m))"
| "leaf_entries (DRRCache m mx t) = sum_list (map leaf_entries_val (map snd m))"
| "leaf_entries DNil = 0"
| "leaf_entries (DInt i) = 0"
| "leaf_entries (DStr s) = 0"
| "leaf_entries (DValue e) = 0"
| "leaf_entries_val (Value b d) =
     (case d of
        DMap m \<Rightarrow> leaf_entries d
      | DRRCache m mx t \<Rightarrow> leaf_entries d
      | _ \<Rightarrow> 1)"

definition mlm_entries :: "MultiLevelMap \<Rightarrow> nat" where
  "mlm_entries mm = entries (cell_value (mlm_v mm))"

definition mlm_leaf_entries :: "MultiLevelMap \<Rightarrow> nat" where
  "mlm_leaf_entries mm = leaf_entries (cell_value (mlm_v mm))"

text \<open>
  A tree of \<^verbatim>\<open>RRCache\<close>s made by one factory \<^verbatim>\<open>NewRRCache(&currentSize, mx, tg, intn)\<close>:
  every cache in it has these limits, the keys of a map are distinct and every cell is
  resolved.
\<close>

fun rr_tree :: "int \<Rightarrow> int \<Rightarrow> dyn \<Rightarrow> bool" and rr_tree_val :: "int \<Rightarrow> int \<Rightarrow> val \<Rightarrow> bool" where
  "rr_tree mx tg (DRRCache m a b) =
     (a = mx \<and> b = tg \<and> distinct (map fst m) \<and> (\<forall>e \<in> snd ` set m. rr_tree_val mx tg e))"
| "rr_tree mx tg (DMap m) = False"
| "rr_tree mx tg DNil = True"
| "rr_tree mx tg (DInt i) = True"
| "rr_tree mx tg (DStr s) = True"
| "rr_tree mx tg (DValue e) = True"
| "rr_tree_val mx tg (Value b d) = (b \<and> rr_tree mx tg d)"

text \<open>A compute function of a client that panics or returns something that is not a cache.\<close>

definition leaf_compute :: "compute \<Rightarrow> bool" where
  "leaf_compute f = (case out f of Panics \<Rightarrow> True | Returns v \<Rightarrow> as_CacheInterface v = None)"

text \<open>
  The number of entries that the descent along a path adds to a tree. The descent adds
  nothing while it finds resolved cells; from the first component that has no resolved
  cell it adds one entry for that component and for every component after it, since the
  nodes it makes are empty. A descent that comes to a value that is not a cache adds
  nothing more. Before the root exists every component of the path is added.
\<close>

fun missing :: "cache \<Rightarrow> key list \<Rightarrow> nat" where
  "missing c [] = 0"
| "missing c (k # ks) =
     (case sm_Load (ci_m c) k of
        Some (Value True d) \<Rightarrow>
          (case as_CacheInterface d of Some c' \<Rightarrow> missing c' ks | None \<Rightarrow> 0)
      | _ \<Rightarrow> Suc (length ks))"

declare missing.simps [simp del]

definition mlm_missing :: "MultiLevelMap \<Rightarrow> key list \<Rightarrow> nat" where
  "mlm_missing mm path =
     (case mlm_v mm of
        Value True d \<Rightarrow>
          (case as_CacheInterface d of Some root \<Rightarrow> missing root path | None \<Rightarrow> 0)
      | Value False d \<Rightarrow> length path)"

text \<open>
  The states that a \<^verbatim>\<open>MultiLevelMap\<close> on that factory and the counter reach from the new
  map and the counter 0, by \<^verbatim>\<open>LoadOrCall\<close>s and \<^verbatim>\<open>Prune\<close>s during which the counter does
  not rise above \<open>mx\<close>, so that no eviction pass makes a sweep, and of which no \<^verbatim>\<open>Prune\<close>
  removes an entry whose nested cache has entries. The counter is highest when the descent
  has added its entries: \<^verbatim>\<open>LoadOrCall\<close> descends along the whole path, \<^verbatim>\<open>Prune\<close> along the
  path without its last component.
\<close>

inductive rr_reach :: "(nat \<Rightarrow> int \<Rightarrow> int) \<Rightarrow> int \<Rightarrow> int \<Rightarrow> MultiLevelMap \<times> world \<Rightarrow> bool"
  for intn :: "nat \<Rightarrow> int \<Rightarrow> int" and mx :: int and tg :: int where
  start: "currentSize w = 0 \<Longrightarrow> rr_reach intn mx tg (NewMultiLevelMap (DRRCache [] mx tg), w)"
| load: "rr_reach intn mx tg (mm, w) \<Longrightarrow> leaf_compute f \<Longrightarrow>
     currentSize w + int (mlm_missing mm path) \<le> mx \<Longrightarrow>
     MultiLevelMap_LoadOrCall intn mm f path w = (mm', w', res) \<Longrightarrow>
     rr_reach intn mx tg (mm', w')"
| prune: "rr_reach intn mx tg (mm, w) \<Longrightarrow>
     currentSize w + int (mlm_missing mm (butlast path)) \<le> mx \<Longrightarrow>
     \<forall>v. mlm_cell_at mm path = Some (Value True v) \<longrightarrow> entries v = 0 \<Longrightarrow>
     MultiLevelMap_Prune intn mm path w = (mm', w', res') \<Longrightarrow>
     rr_reach intn mx tg (mm', w')"

code_pred rr_reach .

abbreviation RR :: "syncmap \<Rightarrow> int \<Rightarrow> int \<Rightarrow> cache" where
  "RR m mx tg \<equiv> CRR \<lparr>rr_m = m, maxSize = mx, targetNum = tg\<rparr>"

text \<open>
  The invariant of these states: the root, once it exists, is such a tree, and the counter
  is the number of its entries.
\<close>

definition rr_inv :: "int \<Rightarrow> int \<Rightarrow> MultiLevelMap \<Rightarrow> world \<Rightarrow> bool" where
  "rr_inv mx tg mm w =
     (mlm_newMap mm = Some (DRRCache [] mx tg) \<and>
      (case mlm_v mm of
         Value False d \<Rightarrow> d = DNil \<and> currentSize w = 0
       | Value True d \<Rightarrow>
           as_CacheInterface d \<noteq> None \<and> rr_tree mx tg d \<and> currentSize w = int (entries d)))"

section \<open>Properties of the cell and of the cache on a \<^verbatim>\<open>sync.Map\<close>\<close>

lemma sm_poke_absent: "map_of m k = None \<Longrightarrow> sm_poke m k e = m"
  by (induction m) (auto split: if_splits)

lemma sm_poke_append_new:
  "map_of m k = None \<Longrightarrow> sm_poke (m @ [(k, e)]) k e' = m @ [(k, e')]"
  by (induction m) (auto split: if_splits)

lemma sm_poke_same: "map_of m k = Some e \<Longrightarrow> sm_poke m k e = m"
  by (induction m) (auto split: if_splits)

lemma sm_Delete_absent: "map_of m k = None \<Longrightarrow> sm_Delete m k = m"
  by (induction m) (auto simp: sm_Delete_def split: if_splits)

lemma sm_Delete_append_new:
  "map_of m k = None \<Longrightarrow> sm_Delete (m @ [(k, e)]) k = m"
  using sm_Delete_absent [of m k] by (simp add: sm_Delete_def)

lemma Value_LoadOrCall_done:
  "Value_LoadOrCall (Value True v) g s = (Value True v, s, Inr v)"
  by (simp add: Value_LoadOrCall_def)

lemma Value_LoadOrCall_first:
  "Value_LoadOrCall new_Value (call f) w =
     (Value True (stored f), w\<lparr>calls := calls w @ [fid f]\<rparr>, first_result f)"
  by (simp add: Value_LoadOrCall_def new_Value_def call_def stored_def first_result_def
      split: outcome.splits)

lemma Value_LoadOrCalls_done:
  "Value_LoadOrCalls (Value True v) gs w = (Value True v, w, replicate (length gs) (Inr v))"
  by (induction gs) (simp_all add: Value_LoadOrCall_done)

lemma Cache_LoadOrCall_miss:
  "map_of m k = None \<Longrightarrow>
   Cache_LoadOrCall m k f w =
     (m @ [(k, Value True (stored f))], w\<lparr>calls := calls w @ [fid f]\<rparr>, first_result f)"
  by (simp add: Cache_LoadOrCall_def sm_LoadOrStore_def Value_LoadOrCall_first sm_poke_append_new)

lemma sm_LoadOrStore_hit_new:
  "map_of m k = None \<Longrightarrow> sm_LoadOrStore (m @ [(k, e)]) k v = (m @ [(k, e)], e, True)"
  by (simp add: sm_LoadOrStore_def map_add_def)

lemma Cache_LoadOrCall_hit_new:
  "map_of m k = None \<Longrightarrow>
   Cache_LoadOrCall (m @ [(k, Value True v)]) k g w = (m @ [(k, Value True v)], w, Inr v)"
  by (simp add: Cache_LoadOrCall_def sm_LoadOrStore_hit_new
      Value_LoadOrCall_done sm_poke_append_new)

lemma Cache_LoadOrCalls_hit_new:
  "map_of m k = None \<Longrightarrow>
   Cache_LoadOrCalls (m @ [(k, Value True v)]) k gs w =
     (m @ [(k, Value True v)], w, replicate (length gs) (Inr v))"
  by (induction gs) (simp_all add: Cache_LoadOrCall_hit_new)

text \<open>
  Claim C7 (a failed compute is not retried). When the compute function of the first
  resolution of a cell panics, the panic reaches that caller and the once is done with the
  value still \<^verbatim>\<open>nil\<close>; every later resolution of the cell, with any compute function \<open>g\<close>
  and in any state, leaves the state as it is (so \<open>g\<close> is not invoked) and returns that
  \<^verbatim>\<open>nil\<close>, never a computed value. The same holds for the cell of a cache entry; after
  \<^verbatim>\<open>Delete\<close> of the entry the next \<^verbatim>\<open>LoadOrCall\<close> works on a new cell and invokes its
  compute function.
\<close>

theorem failed_compute_not_retried:
  "out f = Panics \<longrightarrow>
     Value_LoadOrCall new_Value (call f) w =
       (Value True DNil, w\<lparr>calls := calls w @ [fid f]\<rparr>, Inl ComputePanic)
     \<and> (\<forall>g s. Value_LoadOrCall (Value True DNil) g s = (Value True DNil, s, Inr DNil))
     \<and> (sm_Load m k = None \<longrightarrow>
          Cache_LoadOrCall m k f w =
            (m @ [(k, Value True DNil)], w\<lparr>calls := calls w @ [fid f]\<rparr>, Inl ComputePanic)
          \<and> (\<forall>g w'. Cache_LoadOrCall (m @ [(k, Value True DNil)]) k g w' =
                (m @ [(k, Value True DNil)], w', Inr DNil))
          \<and> (\<forall>g w'. Cache_LoadOrCall (Cache_Delete (m @ [(k, Value True DNil)]) k) k g w' =
                (m @ [(k, Value True (stored g))], w'\<lparr>calls := calls w' @ [fid g]\<rparr>,
                 first_result g)))"
  by (simp add: Value_LoadOrCall_first Value_LoadOrCall_done sm_Load_def
      Cache_LoadOrCall_miss Cache_LoadOrCall_hit_new Cache_Delete_def sm_Delete_append_new
      stored_def first_result_def)

theorem failed_compute_not_retried_witness:
  "out \<lparr>fid = 0, out = Panics\<rparr> = Panics \<and> sm_Load [] (KInt 1) = None \<and>
   Cache_LoadOrCall [] (KInt 1) \<lparr>fid = 0, out = Panics\<rparr>
       \<lparr>calls = [], currentSize = 0, draws = 0, ranges = 0, range_order = \<lambda>n i. 0\<rparr> =
     ([(KInt 1, Value True DNil)], \<lparr>calls = [0], currentSize = 0, draws = 0, ranges = 0, range_order = \<lambda>n i. 0\<rparr>, Inl ComputePanic)
   \<and> Cache_LoadOrCall [(KInt 1, Value True DNil)] (KInt 1) \<lparr>fid = 1, out = Returns (DInt 7)\<rparr>
       \<lparr>calls = [0], currentSize = 0, draws = 0, ranges = 0, range_order = \<lambda>n i. 0\<rparr> =
     ([(KInt 1, Value True DNil)], \<lparr>calls = [0], currentSize = 0, draws = 0, ranges = 0, range_order = \<lambda>n i. 0\<rparr>, Inr DNil)"
proof -
  have p: "out \<lparr>fid = 0, out = Panics\<rparr> = Panics"
    by simp
  have n: "sm_Load [] (KInt 1) = None"
    by (simp add: sm_Load_def)
  note t = failed_compute_not_retried [of "\<lparr>fid = 0, out = Panics\<rparr>"
      "\<lparr>calls = [], currentSize = 0, draws = 0, ranges = 0, range_order = \<lambda>n i. 0\<rparr>" "[]" "KInt 1", rule_format, OF p]
  from t n have a: "Cache_LoadOrCall [] (KInt 1) \<lparr>fid = 0, out = Panics\<rparr>
       \<lparr>calls = [], currentSize = 0, draws = 0, ranges = 0, range_order = \<lambda>n i. 0\<rparr> =
     ([] @ [(KInt 1, Value True DNil)], \<lparr>calls = [], currentSize = 0, draws = 0, ranges = 0, range_order = \<lambda>n i. 0\<rparr>\<lparr>calls := calls \<lparr>calls = [], currentSize = 0, draws = 0, ranges = 0, range_order = \<lambda>n i. 0\<rparr> @ [fid \<lparr>fid = 0, out = Panics\<rparr>]\<rparr>, Inl ComputePanic)"
    by blast
  from t n have b: "Cache_LoadOrCall ([] @ [(KInt 1, Value True DNil)]) (KInt 1) g w' =
      ([] @ [(KInt 1, Value True DNil)], w', Inr DNil)" for g w'
    by blast
  show ?thesis
    using p n a b [of "\<lparr>fid = 1, out = Returns (DInt 7)\<rparr>"
        "\<lparr>calls = [0], currentSize = 0, draws = 0, ranges = 0, range_order = \<lambda>n i. 0\<rparr>"]
    by simp
qed

section \<open>Properties of \<^verbatim>\<open>MultiLevelMap\<close>\<close>

lemma as_CacheInterface_ptr: "as_CacheInterface d = Some c \<Longrightarrow> cache_ptr c = d"
  by (auto simp: as_CacheInterface_def cache_ptr_def split: dyn.splits)

lemma as_CacheInterface_cache_ptr: "as_CacheInterface (cache_ptr c) = Some c"
  by (cases c) (auto simp: as_CacheInterface_def cache_ptr_def)

lemma sm_LoadOrStore_hit:
  "sm_Load m k = Some e \<Longrightarrow> sm_LoadOrStore m k e0 = (m, e, True)"
  by (simp add: sm_Load_def sm_LoadOrStore_def)

lemma Map_LoadOrCall_hit:
  "sm_Load m k = Some (Value True d) \<Longrightarrow> Map_LoadOrCall m k gv w = (m, w, Inr d)"
  by (simp add: Map_LoadOrCall_def sm_LoadOrStore_hit Value_LoadOrCall_done)
     (simp add: sm_Load_def sm_poke_same)

lemma rr_LoadOrCall_hit:
  "sm_Load (rr_m r) k = Some (Value True d) \<Longrightarrow> rr_LoadOrCall intn r k gv w = (r, w, Inr d)"
  by (simp add: rr_LoadOrCall_def sm_LoadOrStore_hit Value_LoadOrCall_done)
     (simp add: sm_Load_def sm_poke_same)

lemma ci_LoadOrCall_hit:
  "sm_Load (ci_m c) k = Some (Value True d) \<Longrightarrow> ci_LoadOrCall intn c k gv w = (c, w, Inr d)"
  by (cases c) (simp_all add: ci_LoadOrCall_def ci_m_def Map_LoadOrCall_hit rr_LoadOrCall_hit)

lemma ci_child_changed_same:
  "sm_Load (ci_m c) k = Some (Value True d) \<Longrightarrow> as_CacheInterface d = Some c' \<Longrightarrow>
   ci_child_changed c k c' = c"
  by (cases c)
     (simp_all add: ci_child_changed_def ci_m_def as_CacheInterface_ptr sm_Load_def sm_poke_same)

lemma node_at_Cons_Some:
  "node_at c (k # ks) = Some n \<Longrightarrow>
   \<exists>d c'. sm_Load (ci_m c) k = Some (Value True d) \<and> as_CacheInterface d = Some c'
      \<and> node_at c' ks = Some n"
  by (auto split: option.splits val.splits bool.splits if_splits)

lemma findLeafNode_hit:
  "node_at c ks = Some n \<Longrightarrow> oper n w = (n, w', res) \<Longrightarrow>
   findLeafNode intn c nm ks oper w = (c, w', res)"
proof (induction ks arbitrary: c)
  case Nil
  then show ?case by simp
next
  case (Cons k ks)
  from node_at_Cons_Some [OF Cons.prems(1)] obtain d c' where
    l: "sm_Load (ci_m c) k = Some (Value True d)" and a: "as_CacheInterface d = Some c'"
    and n: "node_at c' ks = Some n"
    by blast
  from Cons.IH [OF n Cons.prems(2)] l a show ?case
    by (simp add: ci_LoadOrCall_hit ci_child_changed_same)
qed

lemma findLeafNode_conflict:
  "node_at c ks = Some n \<Longrightarrow> sm_Load (ci_m n) k = Some (Value True v) \<Longrightarrow>
   as_CacheInterface v = None \<Longrightarrow>
   findLeafNode intn c nm (ks @ k # rest) oper w = (c, w, Inl TypeAssertion)"
proof (induction ks arbitrary: c)
  case Nil
  then show ?case by (simp add: ci_LoadOrCall_hit)
next
  case (Cons k' ks)
  from node_at_Cons_Some [OF Cons.prems(1)] obtain d c' where
    l: "sm_Load (ci_m c) k' = Some (Value True d)" and a: "as_CacheInterface d = Some c'"
    and n: "node_at c' ks = Some n"
    by blast
  from Cons.IH [OF n Cons.prems(2,3)] l a show ?case
    by (simp add: ci_LoadOrCall_hit ci_child_changed_same)
qed

lemma getRoot_done:
  "mlm_v mm = Value True d0 \<Longrightarrow> as_CacheInterface d0 = Some root \<Longrightarrow>
   getRoot mm w = (mm, w, Inr root)"
  by (simp add: getRoot_def Value_LoadOrCall_done)

lemma root_changed_same:
  "mlm_v mm = Value True d0 \<Longrightarrow> as_CacheInterface d0 = Some root \<Longrightarrow>
   root_changed mm root = mm"
  by (simp add: root_changed_def as_CacheInterface_ptr)

lemma cell_at_Some:
  "cell_at c P = Some e \<Longrightarrow>
   \<exists>n. P \<noteq> [] \<and> node_at c (butlast P) = Some n \<and> sm_Load (ci_m n) (last P) = Some e"
  by (auto simp: cell_at_def split: if_splits option.splits)

text \<open>
  Claim C8 (zero-length path). \<^verbatim>\<open>LoadOrCall\<close> and \<^verbatim>\<open>Prune\<close> with an empty path panic
  at once, each with its own message and not with a value; the map, its root cell
  included, and the world are returned as they were given: no root is created, no compute
  function is invoked, no entry is read, created or removed.
\<close>

theorem empty_path_panics:
  "MultiLevelMap_LoadOrCall intn mm g [] w = (mm, w, Inl PathNotGiven)
   \<and> MultiLevelMap_Prune intn mm [] w = (mm, w, Inl PruneWholeTree)"
  by (simp add: MultiLevelMap_LoadOrCall_def MultiLevelMap_Prune_def)


text \<open>
  Claim C10 (conflict path). The root exists and the cell at path \<open>P\<close> is resolved with
  a value that is not a cache. Then \<^verbatim>\<open>LoadOrCall\<close> and \<^verbatim>\<open>Prune\<close> with a path
  \<open>P @ rest\<close>, \<open>rest\<close> not empty, panic in the type assertion of \<^verbatim>\<open>findLeafNode\<close>; the
  compute function is not invoked and the whole tree, the leaf at \<open>P\<close> included, is as
  before. This holds for every backend of the tree.
\<close>

theorem conflict_path_panics:
  assumes "mlm_v mm = Value True d0" and "as_CacheInterface d0 = Some root"
    and "cell_at root P = Some (Value True v)" and "as_CacheInterface v = None"
    and "rest \<noteq> []"
  shows "MultiLevelMap_LoadOrCall intn mm g (P @ rest) w = (mm, w, Inl TypeAssertion)
       \<and> MultiLevelMap_Prune intn mm (P @ rest) w = (mm, w, Inl TypeAssertion)"
proof -
  from cell_at_Some [OF assms(3)] obtain n where
    P: "P \<noteq> []" and n: "node_at root (butlast P) = Some n"
    and l: "sm_Load (ci_m n) (last P) = Some (Value True v)"
    by blast
  have b: "butlast (P @ rest) = butlast P @ last P # butlast rest"
    using P assms(5) by (simp add: butlast_append)
  have f: "findLeafNode intn root (mlm_newMap mm) (butlast (P @ rest)) oper w =
      (root, w, Inl TypeAssertion)" for oper :: "cache \<Rightarrow> world \<Rightarrow> cache \<times> world \<times> (panic + 'a)"
    unfolding b by (rule findLeafNode_conflict [OF n l assms(4)])
  show ?thesis
    using P assms(1,2)
    by (simp add: MultiLevelMap_LoadOrCall_def MultiLevelMap_Prune_def getRoot_done f
        root_changed_same)
qed

theorem conflict_path_panics_witness:
  "cell_at (CMap [(KStr ''m'', Value True (DStr ''John''))]) [KStr ''m''] =
     Some (Value True (DStr ''John''))
   \<and> as_CacheInterface (DStr ''John'') = None
   \<and> MultiLevelMap_LoadOrCall (\<lambda>i n. 0)
        \<lparr>mlm_v = Value True (DMap [(KStr ''m'', Value True (DStr ''John''))]),
         mlm_newMap = Some (DMap [])\<rparr>
        \<lparr>fid = 1, out = Returns (DStr ''Mary'')\<rparr> ([KStr ''m''] @ [KInt 1])
        \<lparr>calls = [0], currentSize = 0, draws = 0, ranges = 0, range_order = \<lambda>n i. 0\<rparr> =
       (\<lparr>mlm_v = Value True (DMap [(KStr ''m'', Value True (DStr ''John''))]),
         mlm_newMap = Some (DMap [])\<rparr>,
        \<lparr>calls = [0], currentSize = 0, draws = 0, ranges = 0, range_order = \<lambda>n i. 0\<rparr>, Inl TypeAssertion)"
proof -
  have c: "cell_at (CMap [(KStr ''m'', Value True (DStr ''John''))]) [KStr ''m''] =
      Some (Value True (DStr ''John''))"
    by (simp add: cell_at_def ci_m_def sm_Load_def)
  have a: "as_CacheInterface (DStr ''John'') = None"
    by (simp add: as_CacheInterface_def)
  have r: "as_CacheInterface (DMap [(KStr ''m'', Value True (DStr ''John''))]) =
      Some (CMap [(KStr ''m'', Value True (DStr ''John''))])"
    by (simp add: as_CacheInterface_def)
  have v: "mlm_v \<lparr>mlm_v = Value True (DMap [(KStr ''m'', Value True (DStr ''John''))]),
      mlm_newMap = Some (DMap [])\<rparr> = Value True (DMap [(KStr ''m'', Value True (DStr ''John''))])"
    by simp
  have n: "[KInt 1] \<noteq> []"
    by simp
  from conflict_path_panics [OF v r c a n] c a show ?thesis
    by blast
qed

section \<open>Prune and reload on the default backend\<close>

lemma map_of_sm_poke:
  "map_of (sm_poke m k e) k' = (if k' = k \<and> map_of m k \<noteq> None then Some e else map_of m k')"
  by (induction m) (auto split: if_splits)

lemma map_of_sm_Delete:
  "map_of (sm_Delete m k) k' = (if k' = k then None else map_of m k')"
  by (induction m) (auto simp: sm_Delete_def split: if_splits)

lemma map_tree_Load:
  "map_tree (DMap m) \<Longrightarrow> sm_Load m k = Some e \<Longrightarrow> \<exists>d. e = Value True d \<and> map_tree d"
proof -
  assume t: "map_tree (DMap m)" and l: "sm_Load m k = Some e"
  from l have "(k, e) \<in> set m"
    by (simp add: sm_Load_def map_of_SomeD)
  then have "e \<in> snd ` set m"
    by force
  with t have "map_tree_val e"
    by auto
  then show ?thesis
    by (cases e) simp
qed

lemma map_tree_cache:
  "map_tree d \<Longrightarrow> as_CacheInterface d = Some c \<Longrightarrow> \<exists>m. c = CMap m \<and> d = DMap m"
  by (cases d) (auto simp: as_CacheInterface_def)

lemma Map_LoadOrCall_miss:
  "sm_Load m k = None \<Longrightarrow>
   Map_LoadOrCall m k gv w =
     (case gv w of
        (Returns v, w') \<Rightarrow> (m @ [(k, Value True v)], w', Inr v)
      | (Panics, w') \<Rightarrow> (m @ [(k, Value True DNil)], w', Inl ComputePanic))"
  by (auto simp: Map_LoadOrCall_def sm_LoadOrStore_def sm_Load_def Value_LoadOrCall_def
      new_Value_def sm_poke_append_new split: prod.splits outcome.splits)

lemma findLeafNode_step_miss:
  "sm_Load m p = None \<Longrightarrow>
   findLeafNode intn (CMap m) (Some (DMap [])) (p # ks) oper w =
     (case findLeafNode intn (CMap []) (Some (DMap [])) ks oper w of
        (c2, w2, res) \<Rightarrow> (CMap (m @ [(p, Value True (cache_ptr c2))]), w2, res))"
  by (simp add: ci_LoadOrCall_def Map_LoadOrCall_miss call_newMap_def as_CacheInterface_def
      ci_child_changed_def sm_Load_def sm_poke_append_new split: prod.splits)

lemma findLeafNode_step_hit:
  "sm_Load (ci_m c) p = Some (Value True d) \<Longrightarrow> as_CacheInterface d = Some child \<Longrightarrow>
   findLeafNode intn c nm (p # ks) oper w =
     (case findLeafNode intn child nm ks oper w of
        (c2, w2, res) \<Rightarrow> (ci_child_changed c p c2, w2, res))"
  by (simp add: ci_LoadOrCall_hit)

lemma findLeafNode_step_leaf:
  "sm_Load (ci_m c) p = Some (Value True d) \<Longrightarrow> as_CacheInterface d = None \<Longrightarrow>
   findLeafNode intn c nm (p # ks) oper w = (c, w, Inl TypeAssertion)"
  by (simp add: ci_LoadOrCall_hit)

lemma node_at_Cons_hit:
  "sm_Load (ci_m c) p = Some (Value True d) \<Longrightarrow> as_CacheInterface d = Some child \<Longrightarrow>
   node_at c (p # ks) = node_at child ks"
  by simp

lemma prune_descent_leaf:
  "map_tree (DMap m) \<Longrightarrow>
   findLeafNode intn (CMap m) (Some (DMap [])) ks (Delete_at k) w = (c', w', Inr ()) \<Longrightarrow>
   w' = w \<and> (\<exists>m'. node_at c' ks = Some (CMap m') \<and> sm_Load m' k = None)"
proof (induction ks arbitrary: m c' w')
  case Nil
  then show ?case
    by (auto simp: Delete_at_def ci_Delete_def Map_Delete_def sm_Load_def map_of_sm_Delete)
next
  case (Cons p ks)
  show ?case
  proof (cases "sm_Load m p")
    case None
    obtain c2 w2 res where
      r: "findLeafNode intn (CMap []) (Some (DMap [])) ks (Delete_at k) w = (c2, w2, res)"
      by (metis prod_cases3)
    from Cons.prems(2) None r have c': "c' = CMap (m @ [(p, Value True (cache_ptr c2))])"
      and w': "w' = w2" and res: "res = Inr ()"
      by (simp_all add: findLeafNode_step_miss del: findLeafNode.simps)
    have "map_tree (DMap [])"
      by simp
    from Cons.IH [OF this r [unfolded res]] obtain m' where
      "w2 = w" and n: "node_at c2 ks = Some (CMap m')" and l: "sm_Load m' k = None"
      by blast
    have "sm_Load (ci_m c') p = Some (Value True (cache_ptr c2))"
      using None by (simp add: c' ci_m_def sm_Load_def map_add_def)
    then have "node_at c' (p # ks) = node_at c2 ks"
      by (rule node_at_Cons_hit) (rule as_CacheInterface_cache_ptr)
    with n l w' \<open>w2 = w\<close> show ?thesis
      by simp
  next
    case (Some e)
    from map_tree_Load [OF Cons.prems(1) Some] obtain d where
      e: "e = Value True d" and d: "map_tree d"
      by blast
    have l: "sm_Load (ci_m (CMap m)) p = Some (Value True d)"
      using Some e by (simp add: ci_m_def)
    show ?thesis
    proof (cases "as_CacheInterface d")
      case None
      from Cons.prems(2) show ?thesis
        by (simp add: findLeafNode_step_leaf [OF l None] del: findLeafNode.simps)
    next
      case (Some child)
      from map_tree_cache [OF d Some] obtain m2 where
        child: "child = CMap m2" and dm: "d = DMap m2"
        by blast
      obtain c2 w2 res where
        r: "findLeafNode intn (CMap m2) (Some (DMap [])) ks (Delete_at k) w = (c2, w2, res)"
        by (metis prod_cases3)
      from Cons.prems(2) r
      have c': "c' = ci_child_changed (CMap m) p c2" and w': "w' = w2" and res: "res = Inr ()"
        by (simp_all add: findLeafNode_step_hit [OF l Some] child del: findLeafNode.simps)
      from Cons.IH [OF d [unfolded dm] r [unfolded res]] obtain m' where
        "w2 = w" and n: "node_at c2 ks = Some (CMap m')" and l': "sm_Load m' k = None"
        by blast
      have "sm_Load (ci_m c') p = Some (Value True (cache_ptr c2))"
        using l by (simp add: c' ci_child_changed_def ci_m_def sm_Load_def map_of_sm_poke)
      then have "node_at c' (p # ks) = node_at c2 ks"
        by (rule node_at_Cons_hit) (rule as_CacheInterface_cache_ptr)
      with n l' w' \<open>w2 = w\<close> show ?thesis
        by simp
    qed
  qed
qed


lemma descent_result:
  "node_at c ks = Some n \<Longrightarrow> snd (findLeafNode intn c nm ks oper w) = snd (oper n w)"
proof (induction ks arbitrary: c)
  case Nil
  then show ?case by simp
next
  case (Cons k ks)
  from node_at_Cons_Some [OF Cons.prems] obtain d c' where
    l: "sm_Load (ci_m c) k = Some (Value True d)" and a: "as_CacheInterface d = Some c'"
    and n: "node_at c' ks = Some n"
    by blast
  from Cons.IH [OF n, symmetric] show ?case
    by (auto simp: findLeafNode_step_hit [OF l a] split: prod.splits simp del: findLeafNode.simps)
qed

lemma LoadOrCall_at_miss:
  "sm_Load m k = None \<Longrightarrow>
   snd (LoadOrCall_at intn k f (CMap m) w) = (w\<lparr>calls := calls w @ [fid f]\<rparr>, first_result f)"
  by (simp add: LoadOrCall_at_def ci_LoadOrCall_def Map_LoadOrCall_miss call_def first_result_def
      split: outcome.splits)

lemma reload_after_prune:
  "node_at c ks = Some (CMap m') \<Longrightarrow> sm_Load m' k = None \<Longrightarrow>
   snd (findLeafNode intn c nm ks (LoadOrCall_at intn k f) w) =
     (w\<lparr>calls := calls w @ [fid f]\<rparr>, first_result f)"
  by (simp add: descent_result LoadOrCall_at_miss)

lemma cell_at_single: "cell_at c [q] = sm_Load (ci_m c) q"
  by (simp add: cell_at_def)

lemma cell_at_Cons2:
  "cell_at c (q # q' # qs) =
     (case sm_Load (ci_m c) q of
        Some (Value True d) \<Rightarrow>
          (case as_CacheInterface d of Some c' \<Rightarrow> cell_at c' (q' # qs) | None \<Rightarrow> None)
      | _ \<Rightarrow> None)"
  by (simp add: cell_at_def split: option.splits val.splits bool.splits)

lemma cell_at_frame:
  "sm_Load (ci_m c1) q = sm_Load (ci_m c2) q \<Longrightarrow> cell_at c1 (q # qs) = cell_at c2 (q # qs)"
  by (cases qs) (simp_all add: cell_at_single cell_at_Cons2)

lemma LoadOrCall_hit_path:
  "cell_at c Q = Some (Value True v) \<Longrightarrow>
   findLeafNode intn c nm (butlast Q) (LoadOrCall_at intn (last Q) g) w = (c, w, Inr v)"
proof -
  assume "cell_at c Q = Some (Value True v)"
  from cell_at_Some [OF this] obtain n where
    n: "node_at c (butlast Q) = Some n" and l: "sm_Load (ci_m n) (last Q) = Some (Value True v)"
    by blast
  have "LoadOrCall_at intn (last Q) g n w = (n, w, Inr v)"
    by (simp add: LoadOrCall_at_def ci_LoadOrCall_hit [OF l])
  with n show ?thesis
    by (rule findLeafNode_hit)
qed


lemma cell_at_Nil: "cell_at c [] = None"
  by (simp add: cell_at_def)

lemma cell_at_Cons_hit:
  "sm_Load (ci_m c) q = Some (Value True d) \<Longrightarrow> as_CacheInterface d = Some child \<Longrightarrow>
   qs \<noteq> [] \<Longrightarrow> cell_at c (q # qs) = cell_at child qs"
  by (cases qs) (simp_all add: cell_at_Cons2)

lemma cell_at_Cons_absent: "sm_Load (ci_m c) q = None \<Longrightarrow> cell_at c (q # qs) = None"
  by (cases qs) (simp_all add: cell_at_single cell_at_Cons2)

lemma prune_keeps_leaf:
  "map_tree (DMap m) \<Longrightarrow>
   findLeafNode intn (CMap m) (Some (DMap [])) ks (Delete_at k) w = (c', w', Inr ()) \<Longrightarrow>
   cell_at (CMap m) Q = Some (Value True v) \<Longrightarrow>
   as_CacheInterface v = None \<or> \<not> prefix Q (ks @ [k]) \<Longrightarrow>
   \<not> prefix (ks @ [k]) Q \<Longrightarrow> cell_at c' Q = Some (Value True v)"
proof (induction ks arbitrary: m c' w' Q)
  case Nil
  from Nil.prems(3) obtain q qs where Q: "Q = q # qs"
    by (cases Q) (simp_all add: cell_at_Nil)
  with Nil.prems(5) have qk: "q \<noteq> k"
    by simp
  from Nil.prems(2) have c': "c' = CMap (sm_Delete m k)"
    by (simp add: Delete_at_def ci_Delete_def Map_Delete_def)
  have "sm_Load (ci_m c') q = sm_Load (ci_m (CMap m)) q"
    using qk by (simp add: c' ci_m_def sm_Load_def map_of_sm_Delete)
  from cell_at_frame [OF this] Nil.prems(3) show ?case
    by (simp add: Q)
next
  case (Cons p ks)
  from Cons.prems(3) obtain q qs where Q: "Q = q # qs"
    by (cases Q) (simp_all add: cell_at_Nil)
  show ?case
  proof (cases "sm_Load m p")
    case None
    obtain c2 w2 res where
      r: "findLeafNode intn (CMap []) (Some (DMap [])) ks (Delete_at k) w = (c2, w2, res)"
      by (metis prod_cases3)
    from Cons.prems(2) None r have c': "c' = CMap (m @ [(p, Value True (cache_ptr c2))])"
      by (simp add: findLeafNode_step_miss del: findLeafNode.simps)
    have qp: "q \<noteq> p"
    proof
      assume "q = p"
      with None have "cell_at (CMap m) Q = None"
        by (simp add: Q cell_at_Cons_absent ci_m_def)
      with Cons.prems(3) show False
        by simp
    qed
    have "sm_Load (ci_m c') q = sm_Load (ci_m (CMap m)) q"
      using qp by (simp add: c' ci_m_def sm_Load_def map_add_def split: option.splits)
    from cell_at_frame [OF this] Cons.prems(3) show ?thesis
      by (simp add: Q)
  next
    case (Some e)
    from map_tree_Load [OF Cons.prems(1) Some] obtain d where
      e: "e = Value True d" and d: "map_tree d"
      by blast
    have l: "sm_Load (ci_m (CMap m)) p = Some (Value True d)"
      using Some e by (simp add: ci_m_def)
    show ?thesis
    proof (cases "as_CacheInterface d")
      case None
      from Cons.prems(2) show ?thesis
        by (simp add: findLeafNode_step_leaf [OF l None] del: findLeafNode.simps)
    next
      case (Some child)
      from map_tree_cache [OF d Some] obtain m2 where
        child: "child = CMap m2" and dm: "d = DMap m2"
        by blast
      obtain c2 w2 res where
        r: "findLeafNode intn (CMap m2) (Some (DMap [])) ks (Delete_at k) w = (c2, w2, res)"
        by (metis prod_cases3)
      from Cons.prems(2) r
      have c': "c' = ci_child_changed (CMap m) p c2" and res: "res = Inr ()"
        by (simp_all add: findLeafNode_step_hit [OF l Some] child del: findLeafNode.simps)
      have l': "sm_Load (ci_m c') p = Some (Value True (cache_ptr c2))"
        using l by (simp add: c' ci_child_changed_def ci_m_def sm_Load_def map_of_sm_poke)
      show ?thesis
      proof (cases "q = p")
        case False
        then have "sm_Load (ci_m c') q = sm_Load (ci_m (CMap m)) q"
          by (simp add: c' ci_child_changed_def ci_m_def sm_Load_def map_of_sm_poke)
        from cell_at_frame [OF this] Cons.prems(3) show ?thesis
          by (simp add: Q)
      next
        case True
        show ?thesis
        proof (cases "qs = []")
          case True
          with \<open>q = p\<close> Cons.prems(3) l have "v = d"
            by (simp add: Q cell_at_single)
          with Cons.prems(4) Some show ?thesis
            by (simp add: Q \<open>q = p\<close> True)
        next
          case False
          from Cons.prems(3) have a: "cell_at (CMap m2) qs = Some (Value True v)"
            using cell_at_Cons_hit [OF l Some False] by (simp add: Q \<open>q = p\<close> child)
          from Cons.prems(5) have np: "\<not> prefix (ks @ [k]) qs"
            by (simp add: Q \<open>q = p\<close>)
          from Cons.prems(4) have dj: "as_CacheInterface v = None \<or> \<not> prefix qs (ks @ [k])"
            by (simp add: Q \<open>q = p\<close>)
          from Cons.IH [OF d [unfolded dm] r [unfolded res] a dj np]
          have "cell_at c2 qs = Some (Value True v)" .
          then show ?thesis
            using cell_at_Cons_hit [OF l' as_CacheInterface_cache_ptr False]
            by (simp add: Q \<open>q = p\<close>)
        qed
      qed
    qed
  qed
qed


lemma Cache_LoadOrCall_hit:
  "sm_Load m k = Some (Value True v) \<Longrightarrow> Cache_LoadOrCall m k g w = (m, w, Inr v)"
  by (simp add: Cache_LoadOrCall_def sm_LoadOrStore_hit Value_LoadOrCall_done)
     (simp add: sm_Load_def sm_poke_same)

lemma Cache_Delete_then:
  "Cache_LoadOrCall (Cache_Delete m k) k f w =
     (Cache_Delete m k @ [(k, Value True (stored f))], w\<lparr>calls := calls w @ [fid f]\<rparr>,
      first_result f)
   \<and> (k' \<noteq> k \<and> sm_Load m k' = Some (Value True v) \<longrightarrow>
        Cache_LoadOrCall (Cache_Delete m k) k' g w = (Cache_Delete m k, w, Inr v))"
proof -
  have "map_of (Cache_Delete m k) k = None"
    by (simp add: Cache_Delete_def map_of_sm_Delete)
  moreover have "k' \<noteq> k \<Longrightarrow> sm_Load (Cache_Delete m k) k' = sm_Load m k'"
    by (simp add: Cache_Delete_def sm_Load_def map_of_sm_Delete)
  ultimately show ?thesis
    by (simp add: Cache_LoadOrCall_miss Cache_LoadOrCall_hit)
qed

lemma getRoot_default:
  assumes dm: "default_mlm mm"
  shows "\<exists>m. (\<forall>w. getRoot mm w =
          (\<lparr>mlm_v = Value True (DMap m), mlm_newMap = Some (DMap [])\<rparr>, w, Inr (CMap m)))
      \<and> map_tree (DMap m)
      \<and> (\<forall>Q e. mlm_cell_at mm Q = Some e \<longrightarrow> cell_at (CMap m) Q = Some e)
      \<and> (\<forall>Q. mlm_cell_at mm Q = None \<longrightarrow> cell_at (CMap m) Q = None)"
proof (cases "mlm_v mm")
  case (Value b d)
  show ?thesis
  proof (cases b)
    case True
    with dm Value have t: "map_tree d" and "as_CacheInterface d \<noteq> None"
      and nm: "mlm_newMap mm = Some (DMap [])"
      by (simp_all add: default_mlm_def)
    then obtain c where c: "as_CacheInterface d = Some c"
      by blast
    from map_tree_cache [OF t c] obtain m where m: "c = CMap m" "d = DMap m"
      by blast
    have "getRoot mm w = (mm, w, Inr (CMap m))" for w
      using Value True c m by (simp add: getRoot_done)
    moreover have "mm = \<lparr>mlm_v = Value True (DMap m), mlm_newMap = Some (DMap [])\<rparr>"
      using Value True m nm by simp
    moreover have "mlm_cell_at mm Q = cell_at (CMap m) Q" for Q
      using Value True c m by (simp add: mlm_cell_at_def)
    ultimately show ?thesis
      using t m by auto
  next
    case False
    with dm Value have nm: "mlm_newMap mm = None \<or> mlm_newMap mm = Some (DMap [])"
      by (simp add: default_mlm_def)
    then have "getRoot mm w =
        (\<lparr>mlm_v = Value True (DMap []), mlm_newMap = Some (DMap [])\<rparr>, w, Inr (CMap []))" for w
      using Value False
      by (auto simp: getRoot_def Value_LoadOrCall_def as_CacheInterface_def)
    moreover have "mlm_cell_at mm Q = None" for Q
      using Value False by (simp add: mlm_cell_at_def)
    moreover have "cell_at (CMap []) Q = None" for Q
      by (cases Q) (simp_all add: cell_at_Nil cell_at_Cons_absent ci_m_def sm_Load_def)
    ultimately show ?thesis
      by simp
  qed
qed

lemma prune_outcome:
  assumes "default_mlm mm" and "MultiLevelMap_Prune intn mm P w0 = (mm', w', Inr ())"
  shows "\<exists>m root'. P \<noteq> [] \<and> map_tree (DMap m)
      \<and> (\<forall>Q e. mlm_cell_at mm Q = Some e \<longrightarrow> cell_at (CMap m) Q = Some e)
      \<and> findLeafNode intn (CMap m) (Some (DMap [])) (butlast P) (Delete_at (last P)) w0 =
          (root', w', Inr ())
      \<and> mm' = \<lparr>mlm_v = Value True (cache_ptr root'), mlm_newMap = Some (DMap [])\<rparr>"
proof -
  from assms(2) have P: "P \<noteq> []"
    by (auto simp: MultiLevelMap_Prune_def)
  from getRoot_default [OF assms(1)] obtain m where
    g: "getRoot mm w0 =
      (\<lparr>mlm_v = Value True (DMap m), mlm_newMap = Some (DMap [])\<rparr>, w0, Inr (CMap m))"
    and t: "map_tree (DMap m)"
    and c: "\<forall>Q e. mlm_cell_at mm Q = Some e \<longrightarrow> cell_at (CMap m) Q = Some e"
    by blast
  obtain root' w2 res where
    f: "findLeafNode intn (CMap m) (Some (DMap [])) (butlast P) (Delete_at (last P)) w0 =
      (root', w2, res)"
    by (metis prod_cases3)
  from assms(2) P g f have "w2 = w'" and "res = Inr ()"
    and "mm' = \<lparr>mlm_v = Value True (cache_ptr root'), mlm_newMap = Some (DMap [])\<rparr>"
    by (simp_all add: MultiLevelMap_Prune_def root_changed_def)
  with P t c f show ?thesis
    by blast
qed

lemma mlm_LoadOrCall_done:
  "Q \<noteq> [] \<Longrightarrow>
   MultiLevelMap_LoadOrCall intn \<lparr>mlm_v = Value True (cache_ptr root), mlm_newMap = nm\<rparr> g Q w =
     (case findLeafNode intn root nm (butlast Q) (LoadOrCall_at intn (last Q) g) w of
        (r2, w2, res) \<Rightarrow>
          (root_changed \<lparr>mlm_v = Value True (cache_ptr root), mlm_newMap = nm\<rparr> r2, w2, res))"
  by (simp add: MultiLevelMap_LoadOrCall_def
      getRoot_done [OF _ as_CacheInterface_cache_ptr])

lemma prune_then_reload_mlm:
  assumes "default_mlm mm" and "MultiLevelMap_Prune intn mm P w0 = (mm', w', Inr ())"
  shows "snd (MultiLevelMap_LoadOrCall intn mm' f P w) =
           (w\<lparr>calls := calls w @ [fid f]\<rparr>, first_result f)"
    and "mlm_cell_at mm Q = Some (Value True v) \<Longrightarrow>
         as_CacheInterface v = None \<or> \<not> prefix Q P \<Longrightarrow> \<not> prefix P Q \<Longrightarrow>
         MultiLevelMap_LoadOrCall intn mm' g Q w = (mm', w, Inr v)"
proof -
  from prune_outcome [OF assms] obtain m root' where
    P: "P \<noteq> []" and t: "map_tree (DMap m)"
    and c: "\<forall>Q e. mlm_cell_at mm Q = Some e \<longrightarrow> cell_at (CMap m) Q = Some e"
    and f: "findLeafNode intn (CMap m) (Some (DMap [])) (butlast P) (Delete_at (last P)) w0 =
          (root', w', Inr ())"
    and mm': "mm' = \<lparr>mlm_v = Value True (cache_ptr root'), mlm_newMap = Some (DMap [])\<rparr>"
    by blast
  from prune_descent_leaf [OF t f] obtain m' where
    n: "node_at root' (butlast P) = Some (CMap m')" and l: "sm_Load m' (last P) = None"
    by blast
  from reload_after_prune [OF n l, of intn "Some (DMap [])" f w]
  show "snd (MultiLevelMap_LoadOrCall intn mm' f P w) =
           (w\<lparr>calls := calls w @ [fid f]\<rparr>, first_result f)"
    by (auto simp: mm' mlm_LoadOrCall_done [OF P] split: prod.splits)
next
  assume q: "mlm_cell_at mm Q = Some (Value True v)"
    and dj: "as_CacheInterface v = None \<or> \<not> prefix Q P" and np: "\<not> prefix P Q"
  from prune_outcome [OF assms] obtain m root' where
    P: "P \<noteq> []" and t: "map_tree (DMap m)"
    and c: "\<forall>Q e. mlm_cell_at mm Q = Some e \<longrightarrow> cell_at (CMap m) Q = Some e"
    and f: "findLeafNode intn (CMap m) (Some (DMap [])) (butlast P) (Delete_at (last P)) w0 =
          (root', w', Inr ())"
    and mm': "mm' = \<lparr>mlm_v = Value True (cache_ptr root'), mlm_newMap = Some (DMap [])\<rparr>"
    by blast
  from c q have q': "cell_at (CMap m) Q = Some (Value True v)"
    by blast
  then have Q: "Q \<noteq> []"
    by (auto simp: cell_at_Nil)
  have "cell_at root' Q = Some (Value True v)"
    using prune_keeps_leaf [OF t f q'] dj np P by simp
  from LoadOrCall_hit_path [OF this, of intn "Some (DMap [])" g w]
  show "MultiLevelMap_LoadOrCall intn mm' g Q w = (mm', w, Inr v)"
    by (simp add: mm' mlm_LoadOrCall_done [OF Q] root_changed_def)
qed

section \<open>Pruning a path that has no entry\<close>

lemma snd_Map_LoadOrCall_frame:
  "map_of m1 q = map_of m2 q \<Longrightarrow>
   snd (Map_LoadOrCall m1 q gv w) = snd (Map_LoadOrCall m2 q gv w)"
  by (simp add: Map_LoadOrCall_def sm_LoadOrStore_def split: option.splits prod.splits)

lemma snd_findLeafNode_frame:
  "map_of m1 q = map_of m2 q \<Longrightarrow>
   snd (findLeafNode intn (CMap m1) nm (q # rest) oper w) =
   snd (findLeafNode intn (CMap m2) nm (q # rest) oper w)"
  using snd_Map_LoadOrCall_frame [of m1 q m2 "call_newMap nm" w]
  by (auto simp: ci_LoadOrCall_def split: prod.splits sum.splits option.splits)

lemma snd_LoadOrCall_frame:
  assumes "map_of m1 q = map_of m2 q"
  shows "snd (findLeafNode intn (CMap m1) nm (butlast (q # qs)) (LoadOrCall_at intn (last (q # qs)) g) w) =
         snd (findLeafNode intn (CMap m2) nm (butlast (q # qs)) (LoadOrCall_at intn (last (q # qs)) g) w)"
proof (cases "qs = []")
  case True
  then show ?thesis
    using snd_Map_LoadOrCall_frame [OF assms, of "call g" w]
    by (auto simp: LoadOrCall_at_def ci_LoadOrCall_def split: prod.splits)
next
  case False
  then show ?thesis
    using snd_findLeafNode_frame [OF assms] by (simp del: findLeafNode.simps)
qed


lemma snd_LoadOrCall_step_hit:
  assumes "sm_Load (ci_m c) q = Some (Value True d)" and "as_CacheInterface d = Some child"
    and "qs \<noteq> []"
  shows "snd (findLeafNode intn c nm (butlast (q # qs)) (LoadOrCall_at intn (last (q # qs)) g) w) =
         snd (findLeafNode intn child nm (butlast qs) (LoadOrCall_at intn (last qs) g) w)"
  using assms(3)
  by (auto simp: findLeafNode_step_hit [OF assms(1,2)] split: prod.splits
      simp del: findLeafNode.simps)

lemma snd_LoadOrCall_step_miss:
  assumes "sm_Load m q = None" and "qs \<noteq> []"
  shows "snd (findLeafNode intn (CMap m) (Some (DMap [])) (butlast (q # qs))
                (LoadOrCall_at intn (last (q # qs)) g) w) =
         snd (findLeafNode intn (CMap []) (Some (DMap [])) (butlast qs)
                (LoadOrCall_at intn (last qs) g) w)"
  using assms(2)
  by (auto simp: findLeafNode_step_miss [OF assms(1)] split: prod.splits
      simp del: findLeafNode.simps)

lemma prune_noop:
  "map_tree (DMap m) \<Longrightarrow>
   findLeafNode intn (CMap m) (Some (DMap [])) ks (Delete_at k) w0 = (c', w', Inr ()) \<Longrightarrow>
   cell_at (CMap m) (ks @ [k]) = None \<Longrightarrow> Q \<noteq> [] \<Longrightarrow> \<not> strict_prefix Q (ks @ [k]) \<Longrightarrow>
   snd (findLeafNode intn c' (Some (DMap [])) (butlast Q) (LoadOrCall_at intn (last Q) g) w) =
   snd (findLeafNode intn (CMap m) (Some (DMap [])) (butlast Q) (LoadOrCall_at intn (last Q) g) w)"
proof (induction ks arbitrary: m c' w' Q)
  case Nil
  from Nil.prems(3) have "sm_Load m k = None"
    by (simp add: cell_at_single ci_m_def)
  then have "sm_Delete m k = m"
    by (simp add: sm_Load_def sm_Delete_absent)
  with Nil.prems(2) have "c' = CMap m"
    by (simp add: Delete_at_def ci_Delete_def Map_Delete_def)
  then show ?case
    by simp
next
  case (Cons p ks)
  from Cons.prems(4) obtain q qs where Q: "Q = q # qs"
    by (cases Q) simp_all
  show ?case
  proof (cases "sm_Load m p")
    case None
    obtain c2 w2 res where
      r: "findLeafNode intn (CMap []) (Some (DMap [])) ks (Delete_at k) w0 = (c2, w2, res)"
      by (metis prod_cases3)
    from Cons.prems(2) None r have c': "c' = CMap (m @ [(p, Value True (cache_ptr c2))])"
      and res: "res = Inr ()"
      by (simp_all add: findLeafNode_step_miss del: findLeafNode.simps)
    show ?thesis
    proof (cases "q = p")
      case False
      then have "map_of (m @ [(p, Value True (cache_ptr c2))]) q = map_of m q"
        by (simp add: map_add_def split: option.splits)
      from snd_LoadOrCall_frame [OF this] show ?thesis
        by (simp only: Q c')
    next
      case True
      with Cons.prems(5) have qs: "qs \<noteq> []"
        by (auto simp: Q strict_prefix_def)
      from Cons.prems(5) have np: "\<not> strict_prefix qs (ks @ [k])"
        by (simp add: Q True)
      have l': "sm_Load (ci_m c') p = Some (Value True (cache_ptr c2))"
        using None by (simp add: c' ci_m_def sm_Load_def map_add_def)
      have e: "cell_at (CMap []) (ks @ [k]) = None"
        by (cases "ks @ [k]") (simp_all add: cell_at_Cons_absent ci_m_def sm_Load_def)
      have t: "map_tree (DMap [])"
        by simp
      from Cons.IH [OF t r [unfolded res] e qs np] show ?thesis
        by (simp only: Q True snd_LoadOrCall_step_hit [OF l' as_CacheInterface_cache_ptr qs]
            snd_LoadOrCall_step_miss [OF None qs])
    qed
  next
    case (Some e)
    from map_tree_Load [OF Cons.prems(1) Some] obtain d where
      e: "e = Value True d" and d: "map_tree d"
      by blast
    have l: "sm_Load (ci_m (CMap m)) p = Some (Value True d)"
      using Some e by (simp add: ci_m_def)
    show ?thesis
    proof (cases "as_CacheInterface d")
      case None
      from Cons.prems(2) show ?thesis
        by (simp add: findLeafNode_step_leaf [OF l None] del: findLeafNode.simps)
    next
      case (Some child)
      from map_tree_cache [OF d Some] obtain m2 where
        child: "child = CMap m2" and dm: "d = DMap m2"
        by blast
      obtain c2 w2 res where
        r: "findLeafNode intn (CMap m2) (Some (DMap [])) ks (Delete_at k) w0 = (c2, w2, res)"
        by (metis prod_cases3)
      from Cons.prems(2) r
      have c': "c' = ci_child_changed (CMap m) p c2" and res: "res = Inr ()"
        by (simp_all add: findLeafNode_step_hit [OF l Some] child del: findLeafNode.simps)
      have c'': "c' = CMap (sm_poke m p (Value True (cache_ptr c2)))"
        by (simp add: c' ci_child_changed_def)
      have l': "sm_Load (ci_m c') p = Some (Value True (cache_ptr c2))"
        using l by (simp add: c'' ci_m_def sm_Load_def map_of_sm_poke)
      show ?thesis
      proof (cases "q = p")
        case False
        then have "map_of (sm_poke m p (Value True (cache_ptr c2))) q = map_of m q"
          by (simp add: map_of_sm_poke)
        from snd_LoadOrCall_frame [OF this] show ?thesis
          by (simp only: Q c'')
      next
        case True
        with Cons.prems(5) have qs: "qs \<noteq> []"
          by (auto simp: Q strict_prefix_def)
        from Cons.prems(5) have np: "\<not> strict_prefix qs (ks @ [k])"
          by (simp add: Q True)
        have "ks @ [k] \<noteq> []"
          by simp
        from cell_at_Cons_hit [OF l Some this] Cons.prems(3)
        have a: "cell_at (CMap m2) (ks @ [k]) = None"
          by (simp add: child)
        from Cons.IH [OF d [unfolded dm] r [unfolded res] a qs np] show ?thesis
          by (simp only: Q True snd_LoadOrCall_step_hit [OF l' as_CacheInterface_cache_ptr qs]
              snd_LoadOrCall_step_hit [OF l Some qs] child)
      qed
    qed
  qed
qed


lemma prune_succeeds:
  "map_tree (DMap m) \<Longrightarrow>
   \<forall>Q v. strict_prefix Q (ks @ [k]) \<and> cell_at (CMap m) Q = Some (Value True v)
      \<longrightarrow> as_CacheInterface v \<noteq> None \<Longrightarrow>
   \<exists>c'. findLeafNode intn (CMap m) (Some (DMap [])) ks (Delete_at k) w = (c', w, Inr ())"
proof (induction ks arbitrary: m)
  case Nil
  then show ?case
    by (simp add: Delete_at_def ci_Delete_def)
next
  case (Cons p ks)
  show ?case
  proof (cases "sm_Load m p")
    case None
    have "map_tree (DMap [])"
      by simp
    moreover have "\<forall>Q v. strict_prefix Q (ks @ [k]) \<and> cell_at (CMap []) Q = Some (Value True v)
        \<longrightarrow> as_CacheInterface v \<noteq> None"
    proof (intro allI impI)
      fix Q v
      assume "strict_prefix Q (ks @ [k]) \<and> cell_at (CMap []) Q = Some (Value True v)"
      then show "as_CacheInterface v \<noteq> None"
        by (cases Q) (simp_all add: cell_at_Nil cell_at_Cons_absent ci_m_def sm_Load_def)
    qed
    ultimately obtain c2 where
      "findLeafNode intn (CMap []) (Some (DMap [])) ks (Delete_at k) w = (c2, w, Inr ())"
      using Cons.IH by blast
    then show ?thesis
      by (simp add: findLeafNode_step_miss [OF None] del: findLeafNode.simps)
  next
    case (Some e)
    from map_tree_Load [OF Cons.prems(1) Some] obtain d where
      e: "e = Value True d" and d: "map_tree d"
      by blast
    have l: "sm_Load (ci_m (CMap m)) p = Some (Value True d)"
      using Some e by (simp add: ci_m_def)
    have "strict_prefix [p] ((p # ks) @ [k])"
      by (simp add: strict_prefix_def)
    moreover have "cell_at (CMap m) [p] = Some (Value True d)"
      using l by (simp add: cell_at_single)
    ultimately have "as_CacheInterface d \<noteq> None"
      using Cons.prems(2) by blast
    then obtain child where a: "as_CacheInterface d = Some child"
      by blast
    from map_tree_cache [OF d a] obtain m2 where
      child: "child = CMap m2" and dm: "d = DMap m2"
      by blast
    have "\<forall>Q v. strict_prefix Q (ks @ [k]) \<and> cell_at (CMap m2) Q = Some (Value True v)
        \<longrightarrow> as_CacheInterface v \<noteq> None"
    proof (intro allI impI)
      fix Q v
      assume h: "strict_prefix Q (ks @ [k]) \<and> cell_at (CMap m2) Q = Some (Value True v)"
      then have Q: "Q \<noteq> []"
        by (auto simp: cell_at_Nil)
      from h have "strict_prefix (p # Q) ((p # ks) @ [k])"
        by simp
      moreover from h have "cell_at (CMap m) (p # Q) = Some (Value True v)"
        using cell_at_Cons_hit [OF l a Q] by (simp add: child)
      ultimately show "as_CacheInterface v \<noteq> None"
        using Cons.prems(2) by blast
    qed
    with Cons.IH [OF d [unfolded dm]] obtain c2 where
      "findLeafNode intn (CMap m2) (Some (DMap [])) ks (Delete_at k) w = (c2, w, Inr ())"
      by blast
    then show ?thesis
      by (simp add: findLeafNode_step_hit [OF l a] child del: findLeafNode.simps)
  qed
qed

lemma snd_mlm_LoadOrCall:
  assumes "\<forall>w. getRoot mm w = (mm1, w, Inr root)" and "Q \<noteq> []"
  shows "snd (MultiLevelMap_LoadOrCall intn mm g Q w) =
         snd (findLeafNode intn root (mlm_newMap mm1) (butlast Q) (LoadOrCall_at intn (last Q) g) w)"
  using assms by (simp add: MultiLevelMap_LoadOrCall_def split: prod.splits)

text \<open>
  Claim C9 (pruning a path that has no entry), as the code has it. \<^verbatim>\<open>Prune\<close> descends
  with \<^verbatim>\<open>findLeafNode\<close>, which asserts that every value on the way is a cache and
  creates the nodes that are missing. So, on the default backend: for a non-empty path
  \<open>P\<close> with no entry, such that no proper prefix of \<open>P\<close> holds a value that is not a cache,
  \<^verbatim>\<open>Prune(P)\<close> returns without a panic and leaves the world as it is; afterwards every
  \<^verbatim>\<open>LoadOrCall\<close> whose path is not a proper prefix of \<open>P\<close> returns the result, and makes
  the invocations, that it would have without the \<^verbatim>\<open>Prune\<close>. With the empty path
  \<^verbatim>\<open>Prune\<close> panics.
\<close>

theorem prune_absent_path:
  assumes "default_mlm mm" and "P \<noteq> []" and "mlm_cell_at mm P = None"
    and "\<forall>Q v. strict_prefix Q P \<and> mlm_cell_at mm Q = Some (Value True v)
           \<longrightarrow> as_CacheInterface v \<noteq> None"
  shows "(\<exists>mm'. MultiLevelMap_Prune intn mm P w0 = (mm', w0, Inr ())
           \<and> (\<forall>Q g w. \<not> strict_prefix Q P \<longrightarrow>
                snd (MultiLevelMap_LoadOrCall intn mm' g Q w) =
                snd (MultiLevelMap_LoadOrCall intn mm g Q w)))
       \<and> MultiLevelMap_Prune intn mm [] w0 = (mm, w0, Inl PruneWholeTree)"
proof -
  have z: "MultiLevelMap_Prune intn mm [] w0 = (mm, w0, Inl PruneWholeTree)"
    by (simp add: MultiLevelMap_Prune_def)
  from getRoot_default [OF assms(1)] obtain m where
    g: "\<forall>w. getRoot mm w =
      (\<lparr>mlm_v = Value True (DMap m), mlm_newMap = Some (DMap [])\<rparr>, w, Inr (CMap m))"
    and t: "map_tree (DMap m)"
    and c: "\<forall>Q e. mlm_cell_at mm Q = Some e \<longrightarrow> cell_at (CMap m) Q = Some e"
    and n: "\<forall>Q. mlm_cell_at mm Q = None \<longrightarrow> cell_at (CMap m) Q = None"
    by blast
  have P: "butlast P @ [last P] = P"
    using assms(2) by simp
  have h: "\<forall>Q v. strict_prefix Q (butlast P @ [last P]) \<and> cell_at (CMap m) Q = Some (Value True v)
      \<longrightarrow> as_CacheInterface v \<noteq> None"
  proof (intro allI impI)
    fix Q v
    assume a: "strict_prefix Q (butlast P @ [last P]) \<and> cell_at (CMap m) Q = Some (Value True v)"
    with c n have "mlm_cell_at mm Q = Some (Value True v)"
      by (cases "mlm_cell_at mm Q") auto
    moreover from a have "strict_prefix Q P"
      by (simp add: P)
    ultimately show "as_CacheInterface v \<noteq> None"
      using assms(4) by blast
  qed
  from prune_succeeds [OF t h] obtain root' where
    f: "findLeafNode intn (CMap m) (Some (DMap [])) (butlast P) (Delete_at (last P)) w0 =
      (root', w0, Inr ())"
    by blast
  let ?mm' = "\<lparr>mlm_v = Value True (cache_ptr root'), mlm_newMap = Some (DMap [])\<rparr>"
  have pr: "MultiLevelMap_Prune intn mm P w0 = (?mm', w0, Inr ())"
    using assms(2) g f by (simp add: MultiLevelMap_Prune_def root_changed_def)
  have g': "\<forall>w. getRoot ?mm' w = (?mm', w, Inr root')"
    by (simp add: getRoot_done [OF _ as_CacheInterface_cache_ptr])
  have a: "cell_at (CMap m) (butlast P @ [last P]) = None"
    using n assms(3) by (simp add: P)
  have "snd (MultiLevelMap_LoadOrCall intn ?mm' g Q w) =
        snd (MultiLevelMap_LoadOrCall intn mm g Q w)" if q: "\<not> strict_prefix Q P" for Q g w
  proof -
    from q assms(2) have Q: "Q \<noteq> []"
      by (auto simp: strict_prefix_def)
    from q have np: "\<not> strict_prefix Q (butlast P @ [last P])"
      by (simp add: P)
    from prune_noop [OF t f a Q np] show ?thesis
      by (simp add: snd_mlm_LoadOrCall [OF g Q] snd_mlm_LoadOrCall [OF g' Q])
  qed
  with pr z show ?thesis
    by blast
qed


theorem prune_absent_path_witness:
  "default_mlm
      \<lparr>mlm_v = Value True (DMap [(KStr ''f'', Value True (DMap [(KInt 1, Value True (DStr ''Mary''))]))]),
        mlm_newMap = Some (DMap [])\<rparr>
   \<and> mlm_cell_at
      \<lparr>mlm_v = Value True (DMap [(KStr ''f'', Value True (DMap [(KInt 1, Value True (DStr ''Mary''))]))]),
        mlm_newMap = Some (DMap [])\<rparr>
      [KStr ''m'', KInt 0] = None
   \<and> MultiLevelMap_Prune (\<lambda>i n. 0)
      \<lparr>mlm_v = Value True (DMap [(KStr ''f'', Value True (DMap [(KInt 1, Value True (DStr ''Mary''))]))]),
        mlm_newMap = Some (DMap [])\<rparr>
      [KStr ''m'', KInt 0] \<lparr>calls = [], currentSize = 0, draws = 0, ranges = 0, range_order = \<lambda>n i. 0\<rparr> =
     (\<lparr>mlm_v = Value True (DMap [(KStr ''f'', Value True (DMap [(KInt 1, Value True (DStr ''Mary''))])),
                                    (KStr ''m'', Value True (DMap []))]),
        mlm_newMap = Some (DMap [])\<rparr>,
      \<lparr>calls = [], currentSize = 0, draws = 0, ranges = 0, range_order = \<lambda>n i. 0\<rparr>, Inr ())
   \<and> snd (MultiLevelMap_LoadOrCall (\<lambda>i n. 0)
      \<lparr>mlm_v = Value True (DMap [(KStr ''f'', Value True (DMap [(KInt 1, Value True (DStr ''Mary''))])),
                                    (KStr ''m'', Value True (DMap []))]),
        mlm_newMap = Some (DMap [])\<rparr>
      \<lparr>fid = 7, out = Returns (DStr ''x'')\<rparr> [KStr ''m'', KInt 0] \<lparr>calls = [], currentSize = 0, draws = 0, ranges = 0, range_order = \<lambda>n i. 0\<rparr>) =
     snd (MultiLevelMap_LoadOrCall (\<lambda>i n. 0)
      \<lparr>mlm_v = Value True (DMap [(KStr ''f'', Value True (DMap [(KInt 1, Value True (DStr ''Mary''))]))]),
        mlm_newMap = Some (DMap [])\<rparr>
      \<lparr>fid = 7, out = Returns (DStr ''x'')\<rparr> [KStr ''m'', KInt 0] \<lparr>calls = [], currentSize = 0, draws = 0, ranges = 0, range_order = \<lambda>n i. 0\<rparr>)"
proof -
  let ?mm = "\<lparr>mlm_v = Value True (DMap [(KStr ''f'', Value True (DMap [(KInt 1, Value True (DStr ''Mary''))]))]),
        mlm_newMap = Some (DMap [])\<rparr>"
  let ?P = "[KStr ''m'', KInt 0]"
  have d: "default_mlm ?mm"
    by (simp add: default_mlm_def as_CacheInterface_def)
  have n: "?P \<noteq> []"
    by simp
  have c: "mlm_cell_at ?mm ?P = None"
    by (simp add: mlm_cell_at_def as_CacheInterface_def cell_at_def ci_m_def sm_Load_def)
  have h: "\<forall>Q v. strict_prefix Q ?P \<and> mlm_cell_at ?mm Q = Some (Value True v)
      \<longrightarrow> as_CacheInterface v \<noteq> None"
  proof (intro allI impI)
    fix Q v
    assume a: "strict_prefix Q ?P \<and> mlm_cell_at ?mm Q = Some (Value True v)"
    then have "Q = [] \<or> Q = [KStr ''m'']"
      by (cases Q) (auto simp: strict_prefix_def prefix_Cons)
    with a show "as_CacheInterface v \<noteq> None"
      by (auto simp: mlm_cell_at_def as_CacheInterface_def cell_at_def ci_m_def sm_Load_def)
  qed
  have p: "MultiLevelMap_Prune (\<lambda>i n. 0) ?mm ?P \<lparr>calls = [], currentSize = 0, draws = 0, ranges = 0, range_order = \<lambda>n i. 0\<rparr> =
     (\<lparr>mlm_v = Value True (DMap [(KStr ''f'', Value True (DMap [(KInt 1, Value True (DStr ''Mary''))])),
                                    (KStr ''m'', Value True (DMap []))]),
        mlm_newMap = Some (DMap [])\<rparr>,
      \<lparr>calls = [], currentSize = 0, draws = 0, ranges = 0, range_order = \<lambda>n i. 0\<rparr>, Inr ())"
    by (simp add: MultiLevelMap_Prune_def MultiLevelMap_LoadOrCall_def getRoot_def Value_LoadOrCall_def
        new_Value_def zero_MultiLevelMap_def as_CacheInterface_def call_newMap_def call_def
        ci_LoadOrCall_def Map_LoadOrCall_def sm_LoadOrStore_def Delete_at_def LoadOrCall_at_def
        ci_Delete_def Map_Delete_def sm_Delete_def ci_child_changed_def cache_ptr_def
        root_changed_def)
  have q: "\<not> strict_prefix ?P ?P"
    by simp
  from prune_absent_path [OF d n c h, of "\<lambda>i n. 0" "\<lparr>calls = [], currentSize = 0, draws = 0, ranges = 0, range_order = \<lambda>n i. 0\<rparr>"] p q d c show ?thesis
    by auto
qed

theorem idempotent_prune_counterexample:
  "mlm_cell_at zero_MultiLevelMap [KStr ''a'', KStr ''b''] = None
   \<and> MultiLevelMap_Prune (\<lambda>i n. 0) zero_MultiLevelMap [KStr ''a'', KStr ''b''] \<lparr>calls = [], currentSize = 0, draws = 0, ranges = 0, range_order = \<lambda>n i. 0\<rparr> =
     (\<lparr>mlm_v = Value True (DMap [(KStr ''a'', Value True (DMap []))]),
        mlm_newMap = Some (DMap [])\<rparr>,
      \<lparr>calls = [], currentSize = 0, draws = 0, ranges = 0, range_order = \<lambda>n i. 0\<rparr>, Inr ())
   \<and> snd (snd (MultiLevelMap_LoadOrCall (\<lambda>i n. 0) zero_MultiLevelMap
        \<lparr>fid = 7, out = Returns (DStr ''x'')\<rparr> [KStr ''a''] \<lparr>calls = [], currentSize = 0, draws = 0, ranges = 0, range_order = \<lambda>n i. 0\<rparr>)) = Inr (DStr ''x'')
   \<and> snd (snd (MultiLevelMap_LoadOrCall (\<lambda>i n. 0)
        \<lparr>mlm_v = Value True (DMap [(KStr ''a'', Value True (DMap []))]),
        mlm_newMap = Some (DMap [])\<rparr>
        \<lparr>fid = 7, out = Returns (DStr ''x'')\<rparr> [KStr ''a''] \<lparr>calls = [], currentSize = 0, draws = 0, ranges = 0, range_order = \<lambda>n i. 0\<rparr>)) = Inr (DMap [])
   \<and> mlm_cell_at
        \<lparr>mlm_v = Value True (DMap [(KStr ''a'', Value True (DStr ''leaf''))]),
        mlm_newMap = Some (DMap [])\<rparr>
        [KStr ''a'', KStr ''b''] = None
   \<and> MultiLevelMap_Prune (\<lambda>i n. 0)
        \<lparr>mlm_v = Value True (DMap [(KStr ''a'', Value True (DStr ''leaf''))]),
        mlm_newMap = Some (DMap [])\<rparr>
        [KStr ''a'', KStr ''b''] \<lparr>calls = [], currentSize = 0, draws = 0, ranges = 0, range_order = \<lambda>n i. 0\<rparr> =
     (\<lparr>mlm_v = Value True (DMap [(KStr ''a'', Value True (DStr ''leaf''))]),
        mlm_newMap = Some (DMap [])\<rparr>,
      \<lparr>calls = [], currentSize = 0, draws = 0, ranges = 0, range_order = \<lambda>n i. 0\<rparr>, Inl TypeAssertion)"
  by (simp add: mlm_cell_at_def cell_at_def ci_m_def sm_Load_def
        MultiLevelMap_Prune_def MultiLevelMap_LoadOrCall_def getRoot_def Value_LoadOrCall_def
        new_Value_def zero_MultiLevelMap_def as_CacheInterface_def call_newMap_def call_def
        ci_LoadOrCall_def Map_LoadOrCall_def sm_LoadOrStore_def Delete_at_def LoadOrCall_at_def
        ci_Delete_def Map_Delete_def sm_Delete_def ci_child_changed_def cache_ptr_def
        root_changed_def)

section \<open>Properties of \<^verbatim>\<open>LRUMap\<close>\<close>

lemma remove1_last_distinct: "xs \<noteq> [] \<Longrightarrow> distinct xs \<Longrightarrow> remove1 (last xs) xs = butlast xs"
  by (induction xs) (auto split: if_splits)

lemma lru_evict_take:
  "distinct (llist w) \<Longrightarrow> \<forall>x\<in>set (llist w). lelems w x \<noteq> None \<Longrightarrow> 0 \<le> lru_maxSize l \<Longrightarrow>
   \<exists>w'. lru_evict l w = (w', True) \<and> llist w' = take (nat (lru_maxSize l)) (llist w)
      \<and> lelems w' = lelems w \<and> lfresh w' = lfresh w"
proof (induction l w rule: lru_evict.induct)
  case (1 l w)
  show ?case
  proof (cases "int (length (llist w)) > lru_maxSize l")
    case False
    then show ?thesis
      by (simp add: lru_evict.simps [of l w])
  next
    case True
    with "1.prems"(3) have ne: "llist w \<noteq> []"
      by auto
    then have b: "list_Back (llist w) = Some (last (llist w))"
      by (simp add: list_Back_def)
    from ne "1.prems"(2) obtain kv where kv: "lelems w (last (llist w)) = Some kv"
      by (metis last_in_set not_None_eq)
    let ?w1 = "w\<lparr>lmaps := (lmaps w)(kvM kv := map_delete (lmaps w (kvM kv)) (kvKey kv)),
                  llist := list_Remove (last (llist w)) (llist w)\<rparr>"
    have r: "llist ?w1 = butlast (llist w)"
      using ne "1.prems"(1) by (simp add: list_Remove_def remove1_last_distinct)
    have d: "distinct (llist ?w1)"
      using "1.prems"(1) by (simp add: r distinct_butlast)
    have e: "\<forall>x\<in>set (llist ?w1). lelems ?w1 x \<noteq> None"
      using "1.prems"(2) by (auto simp: r dest: in_set_butlastD)
    from "1.IH" [OF True b kv d e "1.prems"(3)] obtain w' where
      w': "lru_evict l ?w1 = (w', True)" "llist w' = take (nat (lru_maxSize l)) (llist ?w1)"
        "lelems w' = lelems ?w1" "lfresh w' = lfresh ?w1"
      by blast
    have "take (nat (lru_maxSize l)) (butlast (llist w)) = take (nat (lru_maxSize l)) (llist w)"
      using True "1.prems"(3) by (simp add: take_butlast)
    with w' r have "lru_evict l w = (w', True)
        \<and> llist w' = take (nat (lru_maxSize l)) (llist w)
        \<and> lelems w' = lelems w \<and> lfresh w' = lfresh w"
      using True b kv by (simp add: lru_evict.simps [of l w])
    then show ?thesis
      by blast
  qed
qed

lemma map_of_map_delete: "k \<noteq> k' \<Longrightarrow> map_of (map_delete m k') k = map_of m k"
  by (induction m) (auto simp: map_delete_def)

lemma map_of_map_delete_same: "map_of (map_delete m k) k = None"
  by (induction m) (auto simp: map_delete_def)

lemma lru_evict_lookup:
  "distinct (llist w) \<Longrightarrow> \<forall>x\<in>set (llist w). lelems w x \<noteq> None \<Longrightarrow> 0 \<le> lru_maxSize l \<Longrightarrow>
   map_of (lmaps (fst (lru_evict l w)) a) k =
     (if \<exists>x\<in>set (drop (nat (lru_maxSize l)) (llist w)).
           \<exists>kv. lelems w x = Some kv \<and> kvM kv = a \<and> kvKey kv = k
      then None else map_of (lmaps w a) k)"
proof (induction l w rule: lru_evict.induct)
  case (1 l w)
  let ?n = "nat (lru_maxSize l)"
  show ?case
  proof (cases "int (length (llist w)) > lru_maxSize l")
    case False
    then show ?thesis
      by (simp add: lru_evict.simps [of l w])
  next
    case True
    with "1.prems"(3) have ne: "llist w \<noteq> []"
      by auto
    then have b: "list_Back (llist w) = Some (last (llist w))"
      by (simp add: list_Back_def)
    from ne "1.prems"(2) obtain kv where kv: "lelems w (last (llist w)) = Some kv"
      by (metis last_in_set not_None_eq)
    let ?w1 = "w\<lparr>lmaps := (lmaps w)(kvM kv := map_delete (lmaps w (kvM kv)) (kvKey kv)),
                  llist := list_Remove (last (llist w)) (llist w)\<rparr>"
    have r: "llist ?w1 = butlast (llist w)"
      using ne "1.prems"(1) by (simp add: list_Remove_def remove1_last_distinct)
    have d: "distinct (llist ?w1)"
      using "1.prems"(1) by (simp add: r distinct_butlast)
    have e: "\<forall>x\<in>set (llist ?w1). lelems ?w1 x \<noteq> None"
      using "1.prems"(2) by (auto simp: r dest: in_set_butlastD)
    have lt: "?n < length (llist w)"
      using True "1.prems"(3) by simp
    then have dn: "drop ?n (llist w) \<noteq> []"
      by simp
    have ld: "last (drop ?n (llist w)) = last (llist w)"
      using lt by (rule last_drop)
    have sp: "drop ?n (llist w) = butlast (drop ?n (llist w)) @ [last (llist w)]"
      using append_butlast_last_id [OF dn] by (simp only: ld)
    have s: "set (drop ?n (llist w)) = insert (last (llist w)) (set (drop ?n (llist ?w1)))"
      by (subst sp) (simp add: r butlast_drop)
    have m1: "map_of (lmaps ?w1 a) k =
        (if kvM kv = a \<and> kvKey kv = k then None else map_of (lmaps w a) k)"
      by (auto simp: map_of_map_delete_same map_of_map_delete)
    from "1.IH" [OF True b kv d e "1.prems"(3)]
    have "map_of (lmaps (fst (lru_evict l ?w1)) a) k =
        (if \<exists>x\<in>set (drop ?n (llist ?w1)).
              \<exists>kv. lelems ?w1 x = Some kv \<and> kvM kv = a \<and> kvKey kv = k
         then None else map_of (lmaps ?w1 a) k)" .
    also have "\<dots> = (if \<exists>x\<in>set (drop ?n (llist w)).
           \<exists>kv. lelems w x = Some kv \<and> kvM kv = a \<and> kvKey kv = k
         then None else map_of (lmaps w a) k)"
      unfolding m1 s using kv by auto
    finally show ?thesis
      using True b kv by (simp add: lru_evict.simps [of l w])
  qed
qed

text \<open>
  Claim C3 (contract of \<^verbatim>\<open>LRUMap.LoadOrStore\<close>). When the key is present, its element is
  moved to the front of the list and the stored value is returned with \<open>True\<close>; the list
  keeps its elements and no map changes, so nothing is evicted. When the key is absent (and
  the capacity is not negative), a new element with the key and the value is put at the
  front, elements are removed from the back until the list is no longer than the capacity,
  and the given value is returned with \<open>False\<close>. So the list is then the first
  \<^verbatim>\<open>maxSize\<close> elements of the list with the new element in front, and its length is at most
  the capacity; the elements after them are the evicted ones. The maps follow the list: the
  key of every evicted element is no longer in the map that the element names, the key of
  the call is in the map of this \<^verbatim>\<open>LRUMap\<close> with the new element (unless the new element
  is itself evicted, with capacity 0), and every other key of every map is as before.
\<close>

theorem lru_LoadOrStore_contract:
  "(map_of (lmaps w (lru_m l)) k = Some e \<and> lelems w e = Some kv \<and> e \<in> set (llist w) \<longrightarrow>
      lru_LoadOrStore l k v w =
        (w\<lparr>llist := e # remove1 e (llist w)\<rparr>, Inr (kvValue kv, True)))
   \<and> (map_of (lmaps w (lru_m l)) k = None \<and> 0 \<le> lru_maxSize l \<and> distinct (llist w)
       \<and> lfresh w \<notin> set (llist w) \<and> (\<forall>x\<in>set (llist w). lelems w x \<noteq> None) \<longrightarrow>
      (\<exists>w'. lru_LoadOrStore l k v w = (w', Inr (v, False))
         \<and> llist w' = take (nat (lru_maxSize l)) (lfresh w # llist w)
         \<and> int (length (llist w')) \<le> lru_maxSize l
         \<and> lelems w' = (lelems w)(lfresh w \<mapsto> \<lparr>kvM = lru_m l, kvKey = k, kvValue = v\<rparr>)
         \<and> lfresh w' = lfresh w + 1
         \<and> (\<forall>a k'. map_of (lmaps w' a) k' =
              (if \<exists>x\<in>set (drop (nat (lru_maxSize l)) (lfresh w # llist w)).
                    \<exists>kv. ((lelems w)(lfresh w \<mapsto> \<lparr>kvM = lru_m l, kvKey = k, kvValue = v\<rparr>)) x = Some kv
                      \<and> kvM kv = a \<and> kvKey kv = k'
               then None
               else if a = lru_m l \<and> k' = k then Some (lfresh w)
               else map_of (lmaps w a) k'))))"
proof (intro conjI impI)
  assume "map_of (lmaps w (lru_m l)) k = Some e \<and> lelems w e = Some kv \<and> e \<in> set (llist w)"
  then show "lru_LoadOrStore l k v w =
        (w\<lparr>llist := e # remove1 e (llist w)\<rparr>, Inr (kvValue kv, True))"
    by (simp add: lru_LoadOrStore_def list_MoveToFront_def)
next
  assume a: "map_of (lmaps w (lru_m l)) k = None \<and> 0 \<le> lru_maxSize l \<and> distinct (llist w)
       \<and> lfresh w \<notin> set (llist w) \<and> (\<forall>x\<in>set (llist w). lelems w x \<noteq> None)"
  let ?w1 = "w\<lparr>llist := lfresh w # llist w,
                lelems := (lelems w)(lfresh w \<mapsto> \<lparr>kvM = lru_m l, kvKey = k, kvValue = v\<rparr>),
                lmaps := (lmaps w)(lru_m l := lmaps w (lru_m l) @ [(k, lfresh w)]),
                lfresh := lfresh w + 1\<rparr>"
  have d: "distinct (llist ?w1)"
    using a by simp
  have e: "\<forall>x\<in>set (llist ?w1). lelems ?w1 x \<noteq> None"
    using a by simp
  from a have m: "0 \<le> lru_maxSize l" and n: "map_of (lmaps w (lru_m l)) k = None"
    by simp_all
  from lru_evict_take [OF d e m] obtain w' where
    w': "lru_evict l ?w1 = (w', True)" "llist w' = take (nat (lru_maxSize l)) (llist ?w1)"
      "lelems w' = lelems ?w1" "lfresh w' = lfresh ?w1"
    by blast
  have c1: "lru_LoadOrStore l k v w = (w', Inr (v, False))"
    using a w'(1) by (simp add: lru_LoadOrStore_def Let_def)
  have c2: "llist w' = take (nat (lru_maxSize l)) (lfresh w # llist w)"
    using w'(2) by simp
  have c3: "int (length (llist w')) \<le> lru_maxSize l"
    using w'(2) m by simp
  have c4: "lelems w' = (lelems w)(lfresh w \<mapsto> \<lparr>kvM = lru_m l, kvKey = k, kvValue = v\<rparr>)"
    using w'(3) by simp
  have c5: "lfresh w' = lfresh w + 1"
    using w'(4) by simp
  have m1: "map_of (lmaps ?w1 a) k' =
      (if a = lru_m l \<and> k' = k then Some (lfresh w) else map_of (lmaps w a) k')" for a k'
    using n by (auto simp: map_add_def split: option.splits)
  have c6: "map_of (lmaps w' a) k' =
      (if \<exists>x\<in>set (drop (nat (lru_maxSize l)) (lfresh w # llist w)).
            \<exists>kv. ((lelems w)(lfresh w \<mapsto> \<lparr>kvM = lru_m l, kvKey = k, kvValue = v\<rparr>)) x = Some kv
              \<and> kvM kv = a \<and> kvKey kv = k'
       then None
       else if a = lru_m l \<and> k' = k then Some (lfresh w)
       else map_of (lmaps w a) k')" for a k'
    using lru_evict_lookup [OF d e m, of a k'] w'(1) unfolding m1 by simp
  from c1 c2 c3 c4 c5 c6 show "(\<exists>w'. lru_LoadOrStore l k v w = (w', Inr (v, False))
         \<and> llist w' = take (nat (lru_maxSize l)) (lfresh w # llist w)
         \<and> int (length (llist w')) \<le> lru_maxSize l
         \<and> lelems w' = (lelems w)(lfresh w \<mapsto> \<lparr>kvM = lru_m l, kvKey = k, kvValue = v\<rparr>)
         \<and> lfresh w' = lfresh w + 1
         \<and> (\<forall>a k'. map_of (lmaps w' a) k' =
              (if \<exists>x\<in>set (drop (nat (lru_maxSize l)) (lfresh w # llist w)).
                    \<exists>kv. ((lelems w)(lfresh w \<mapsto> \<lparr>kvM = lru_m l, kvKey = k, kvValue = v\<rparr>)) x = Some kv
                      \<and> kvM kv = a \<and> kvKey kv = k'
               then None
               else if a = lru_m l \<and> k' = k then Some (lfresh w)
               else map_of (lmaps w a) k')))"
    by blast
qed

theorem lru_LoadOrStore_contract_witness:
  "lru_LoadOrStore \<lparr>lru_m = 0, lru_maxSize = 2\<rparr> (KInt 1) (LOther (DStr ''uno''))
      \<lparr>llist = [1, 0],
       lelems = [0 \<mapsto> \<lparr>kvM = 0, kvKey = KInt 1, kvValue = LOther (DStr ''one'')\<rparr>,
                 1 \<mapsto> \<lparr>kvM = 0, kvKey = KInt 2, kvValue = LOther (DStr ''two'')\<rparr>],
       lmaps = (\<lambda>a. [])(0 := [(KInt 1, 0), (KInt 2, 1)]),
       lfresh = 2\<rparr> =
     (\<lparr>llist = [1, 0],
       lelems = [0 \<mapsto> \<lparr>kvM = 0, kvKey = KInt 1, kvValue = LOther (DStr ''one'')\<rparr>,
                 1 \<mapsto> \<lparr>kvM = 0, kvKey = KInt 2, kvValue = LOther (DStr ''two'')\<rparr>],
       lmaps = (\<lambda>a. [])(0 := [(KInt 1, 0), (KInt 2, 1)]),
       lfresh = 2\<rparr>\<lparr>llist := [0, 1]\<rparr>, Inr (LOther (DStr ''one''), True))
   \<and> (\<exists>w'. lru_LoadOrStore \<lparr>lru_m = 0, lru_maxSize = 2\<rparr> (KInt 3) (LOther (DStr ''three''))
      \<lparr>llist = [1, 0],
       lelems = [0 \<mapsto> \<lparr>kvM = 0, kvKey = KInt 1, kvValue = LOther (DStr ''one'')\<rparr>,
                 1 \<mapsto> \<lparr>kvM = 0, kvKey = KInt 2, kvValue = LOther (DStr ''two'')\<rparr>],
       lmaps = (\<lambda>a. [])(0 := [(KInt 1, 0), (KInt 2, 1)]),
       lfresh = 2\<rparr> = (w', Inr (LOther (DStr ''three''), False))
      \<and> llist w' = [2, 1]
      \<and> map_of (lmaps w' 0) (KInt 1) = None
      \<and> map_of (lmaps w' 0) (KInt 2) = Some 1
      \<and> map_of (lmaps w' 0) (KInt 3) = Some 2)"
proof -
  let ?w = "\<lparr>llist = [1, 0],
       lelems = [0 \<mapsto> \<lparr>kvM = 0, kvKey = KInt 1, kvValue = LOther (DStr ''one'')\<rparr>,
                 1 \<mapsto> \<lparr>kvM = 0, kvKey = KInt 2, kvValue = LOther (DStr ''two'')\<rparr>],
       lmaps = (\<lambda>a. [])(0 := [(KInt 1, 0), (KInt 2, 1)]),
       lfresh = 2\<rparr>"
  let ?l = "\<lparr>lru_m = 0, lru_maxSize = 2\<rparr>"
  have h: "map_of (lmaps ?w (lru_m ?l)) (KInt 1) = Some 0
      \<and> lelems ?w 0 = Some \<lparr>kvM = 0, kvKey = KInt 1, kvValue = LOther (DStr ''one'')\<rparr>
      \<and> 0 \<in> set (llist ?w)"
    by simp
  have m: "map_of (lmaps ?w (lru_m ?l)) (KInt 3) = None \<and> 0 \<le> lru_maxSize ?l
      \<and> distinct (llist ?w) \<and> lfresh ?w \<notin> set (llist ?w)
      \<and> (\<forall>x\<in>set (llist ?w). lelems ?w x \<noteq> None)"
    by simp
  from lru_LoadOrStore_contract [of ?w ?l "KInt 1" 0
      "\<lparr>kvM = 0, kvKey = KInt 1, kvValue = LOther (DStr ''one'')\<rparr>" "LOther (DStr ''uno'')"] h
  have a: "lru_LoadOrStore ?l (KInt 1) (LOther (DStr ''uno'')) ?w =
      (?w\<lparr>llist := [0, 1]\<rparr>, Inr (LOther (DStr ''one''), True))"
    by simp
  from lru_LoadOrStore_contract [of ?w ?l "KInt 3" 0
      "\<lparr>kvM = 0, kvKey = KInt 1, kvValue = LOther (DStr ''one'')\<rparr>" "LOther (DStr ''three'')"] m
  obtain w' where s: "lru_LoadOrStore ?l (KInt 3) (LOther (DStr ''three'')) ?w =
      (w', Inr (LOther (DStr ''three''), False))"
    and t: "llist w' = take (nat (lru_maxSize ?l)) (lfresh ?w # llist ?w)"
    and u: "\<forall>a k'. map_of (lmaps w' a) k' =
        (if \<exists>x\<in>set (drop (nat (lru_maxSize ?l)) (lfresh ?w # llist ?w)).
              \<exists>kv. ((lelems ?w)(lfresh ?w \<mapsto>
                \<lparr>kvM = lru_m ?l, kvKey = KInt 3, kvValue = LOther (DStr ''three'')\<rparr>)) x = Some kv
                \<and> kvM kv = a \<and> kvKey kv = k'
         then None
         else if a = lru_m ?l \<and> k' = KInt 3 then Some (lfresh ?w)
         else map_of (lmaps ?w a) k')"
    by blast
  have t': "llist w' = [2, 1]"
    using t by (simp add: numeral_2_eq_2)
  have dr: "drop (nat (lru_maxSize ?l)) (lfresh ?w # llist ?w) = [0]"
    by (simp add: numeral_2_eq_2)
  have u1: "map_of (lmaps w' 0) (KInt 1) = None"
    using u [rule_format, of 0 "KInt 1"] unfolding dr by simp
  have u2: "map_of (lmaps w' 0) (KInt 2) = Some 1"
    using u [rule_format, of 0 "KInt 2"] unfolding dr by simp
  have u3: "map_of (lmaps w' 0) (KInt 3) = Some 2"
    using u [rule_format, of 0 "KInt 3"] unfolding dr by simp
  from a s t' u1 u2 u3 show ?thesis
    by blast
qed

section \<open>\<^verbatim>\<open>Delete\<close> of an entry that holds a nested cache\<close>

text \<open>
  Claim C6 (recursive clear of the subtree on \<^verbatim>\<open>Delete\<close>), evaluated where it fails. In a
  \<^verbatim>\<open>MultiLevelMap\<close> the value stored under a key is the pointer to the cell, and the
  nested cache is the value of the cell, so the assertions \<^verbatim>\<open>value.(*RRCache)\<close> and
  \<^verbatim>\<open>.(*LRUMap)\<close> of the two \<^verbatim>\<open>Delete\<close>s fail and nothing is cleared.
  With the random-replacement backend: after \<^verbatim>\<open>LoadOrCall(f, "m", 0)\<close> the counter is 2,
  and \<^verbatim>\<open>Prune("m")\<close> leaves an empty tree with the counter at 1. With the LRU backend:
  \<^verbatim>\<open>Delete("m")\<close> of the entry whose cell holds the cache on the nested map removes that
  one element, and the element of the nested map stays in the shared list and in the
  nested map. The last part is the case the code handles, a pointer to the \<^verbatim>\<open>LRUMap\<close>
  stored directly: there the nested map is cleared first.
\<close>

theorem delete_leaves_subtree:
  "MultiLevelMap_LoadOrCall (\<lambda>i n. 0) (NewMultiLevelMap (DRRCache [] 4 2))
      \<lparr>fid = 0, out = Returns (DStr ''John'')\<rparr> [KStr ''m'', KInt 0]
      \<lparr>calls = [], currentSize = 0, draws = 0, ranges = 0, range_order = \<lambda>n i. 0\<rparr> =
     (\<lparr>mlm_v = Value True (DRRCache
          [(KStr ''m'', Value True (DRRCache [(KInt 0, Value True (DStr ''John''))] 4 2))] 4 2),
        mlm_newMap = Some (DRRCache [] 4 2)\<rparr>,
      \<lparr>calls = [0], currentSize = 2, draws = 0, ranges = 0, range_order = \<lambda>n i. 0\<rparr>, Inr (DStr ''John''))
   \<and> MultiLevelMap_Prune (\<lambda>i n. 0)
      \<lparr>mlm_v = Value True (DRRCache
          [(KStr ''m'', Value True (DRRCache [(KInt 0, Value True (DStr ''John''))] 4 2))] 4 2),
        mlm_newMap = Some (DRRCache [] 4 2)\<rparr>
      [KStr ''m''] \<lparr>calls = [0], currentSize = 2, draws = 0, ranges = 0, range_order = \<lambda>n i. 0\<rparr> =
     (\<lparr>mlm_v = Value True (DRRCache [] 4 2), mlm_newMap = Some (DRRCache [] 4 2)\<rparr>,
      \<lparr>calls = [0], currentSize = 1, draws = 0, ranges = 0, range_order = \<lambda>n i. 0\<rparr>, Inr ())
   \<and> lru_Delete ord (Suc n) \<lparr>lru_m = 0, lru_maxSize = 5\<rparr> (KStr ''m'')
        \<lparr>llist = [1, 0],
         lelems = [0 \<mapsto> \<lparr>kvM = 0, kvKey = KStr ''m'', kvValue = LCell True (LCache 1 5)\<rparr>,
                   1 \<mapsto> \<lparr>kvM = 1, kvKey = KInt 0,
                          kvValue = LCell True (LOther (DStr ''John''))\<rparr>],
         lmaps = (\<lambda>a. [])(0 := [(KStr ''m'', 0)], 1 := [(KInt 0, 1)]),
         lfresh = 2\<rparr> =
      Some \<lparr>llist = [1],
         lelems = [0 \<mapsto> \<lparr>kvM = 0, kvKey = KStr ''m'', kvValue = LCell True (LCache 1 5)\<rparr>,
                   1 \<mapsto> \<lparr>kvM = 1, kvKey = KInt 0,
                          kvValue = LCell True (LOther (DStr ''John''))\<rparr>],
         lmaps = (\<lambda>a. [])(0 := [], 1 := [(KInt 0, 1)]),
         lfresh = 2\<rparr>
   \<and> lru_Delete ord (Suc (Suc n)) \<lparr>lru_m = 0, lru_maxSize = 5\<rparr> (KStr ''m'')
        \<lparr>llist = [1, 0],
         lelems = [0 \<mapsto> \<lparr>kvM = 0, kvKey = KStr ''m'', kvValue = LLRUMap 1 5\<rparr>,
                   1 \<mapsto> \<lparr>kvM = 1, kvKey = KInt 0,
                          kvValue = LCell True (LOther (DStr ''John''))\<rparr>],
         lmaps = (\<lambda>a. [])(0 := [(KStr ''m'', 0)], 1 := [(KInt 0, 1)]),
         lfresh = 2\<rparr> =
      Some \<lparr>llist = [],
         lelems = [0 \<mapsto> \<lparr>kvM = 0, kvKey = KStr ''m'', kvValue = LLRUMap 1 5\<rparr>,
                   1 \<mapsto> \<lparr>kvM = 1, kvKey = KInt 0,
                          kvValue = LCell True (LOther (DStr ''John''))\<rparr>],
         lmaps = (\<lambda>a. [])(0 := [], 1 := []),
         lfresh = 2\<rparr>"
proof -
  have a: "MultiLevelMap_LoadOrCall (\<lambda>i n. 0) (NewMultiLevelMap (DRRCache [] 4 2))
      \<lparr>fid = 0, out = Returns (DStr ''John'')\<rparr> [KStr ''m'', KInt 0]
      \<lparr>calls = [], currentSize = 0, draws = 0, ranges = 0, range_order = \<lambda>n i. 0\<rparr> =
     (\<lparr>mlm_v = Value True (DRRCache
          [(KStr ''m'', Value True (DRRCache [(KInt 0, Value True (DStr ''John''))] 4 2))] 4 2),
        mlm_newMap = Some (DRRCache [] 4 2)\<rparr>,
      \<lparr>calls = [0], currentSize = 2, draws = 0, ranges = 0, range_order = \<lambda>n i. 0\<rparr>, Inr (DStr ''John''))"
    by (simp add: MultiLevelMap_LoadOrCall_def NewMultiLevelMap_def getRoot_def
        Value_LoadOrCall_def new_Value_def as_CacheInterface_def call_newMap_def call_def
        ci_LoadOrCall_def rr_LoadOrCall_def sm_LoadOrStore_def LoadOrCall_at_def
        AddInt32_def wrap32_def ci_child_changed_def cache_ptr_def root_changed_def)
  have b: "MultiLevelMap_Prune (\<lambda>i n. 0)
      \<lparr>mlm_v = Value True (DRRCache
          [(KStr ''m'', Value True (DRRCache [(KInt 0, Value True (DStr ''John''))] 4 2))] 4 2),
        mlm_newMap = Some (DRRCache [] 4 2)\<rparr>
      [KStr ''m''] \<lparr>calls = [0], currentSize = 2, draws = 0, ranges = 0, range_order = \<lambda>n i. 0\<rparr> =
     (\<lparr>mlm_v = Value True (DRRCache [] 4 2), mlm_newMap = Some (DRRCache [] 4 2)\<rparr>,
      \<lparr>calls = [0], currentSize = 1, draws = 0, ranges = 0, range_order = \<lambda>n i. 0\<rparr>, Inr ())"
    by (simp add: MultiLevelMap_Prune_def getRoot_def Value_LoadOrCall_def
        as_CacheInterface_def Delete_at_def ci_Delete_def sm_Load_def as_RRCache_def
        sm_Delete_def AddInt32_def wrap32_def cache_ptr_def root_changed_def)
  have c: "lru_Delete ord (Suc n) \<lparr>lru_m = 0, lru_maxSize = 5\<rparr> (KStr ''m'')
        \<lparr>llist = [1, 0],
         lelems = [0 \<mapsto> \<lparr>kvM = 0, kvKey = KStr ''m'', kvValue = LCell True (LCache 1 5)\<rparr>,
                   1 \<mapsto> \<lparr>kvM = 1, kvKey = KInt 0,
                          kvValue = LCell True (LOther (DStr ''John''))\<rparr>],
         lmaps = (\<lambda>a. [])(0 := [(KStr ''m'', 0)], 1 := [(KInt 0, 1)]),
         lfresh = 2\<rparr> =
      Some \<lparr>llist = [1],
         lelems = [0 \<mapsto> \<lparr>kvM = 0, kvKey = KStr ''m'', kvValue = LCell True (LCache 1 5)\<rparr>,
                   1 \<mapsto> \<lparr>kvM = 1, kvKey = KInt 0,
                          kvValue = LCell True (LOther (DStr ''John''))\<rparr>],
         lmaps = (\<lambda>a. [])(0 := [], 1 := [(KInt 0, 1)]),
         lfresh = 2\<rparr>"
    by (simp add: list_Remove_def map_delete_def fun_upd_twist Let_def)
  have d: "lru_Delete ord (Suc (Suc n)) \<lparr>lru_m = 0, lru_maxSize = 5\<rparr> (KStr ''m'')
        \<lparr>llist = [1, 0],
         lelems = [0 \<mapsto> \<lparr>kvM = 0, kvKey = KStr ''m'', kvValue = LLRUMap 1 5\<rparr>,
                   1 \<mapsto> \<lparr>kvM = 1, kvKey = KInt 0,
                          kvValue = LCell True (LOther (DStr ''John''))\<rparr>],
         lmaps = (\<lambda>a. [])(0 := [(KStr ''m'', 0)], 1 := [(KInt 0, 1)]),
         lfresh = 2\<rparr> =
      Some \<lparr>llist = [],
         lelems = [0 \<mapsto> \<lparr>kvM = 0, kvKey = KStr ''m'', kvValue = LLRUMap 1 5\<rparr>,
                   1 \<mapsto> \<lparr>kvM = 1, kvKey = KInt 0,
                          kvValue = LCell True (LOther (DStr ''John''))\<rparr>],
         lmaps = (\<lambda>a. [])(0 := [], 1 := []),
         lfresh = 2\<rparr>"
    by (simp add: list_Remove_def map_delete_def fun_upd_twist Let_def)
  from a b c d show ?thesis
    by blast
qed

section \<open>The eviction pass of \<^verbatim>\<open>RRCache\<close>\<close>

lemma wrap32_id: "- (2 ^ 31) \<le> x \<Longrightarrow> x < 2 ^ 31 \<Longrightarrow> wrap32 x = x"
  by (simp add: wrap32_def)

lemma rr_Delete_eq:
  "rr_Delete r k w =
     (case sm_Load (rr_m r) k of
        None \<Rightarrow> (r, w)
      | Some e \<Rightarrow> (r\<lparr>rr_m := sm_Delete (rr_m r) k\<rparr>, AddInt32 (- 1) w))"
  by (simp add: as_RRCache_def split: option.splits)

lemma length_sm_Delete: "length (sm_Delete m k) \<le> length m"
  by (simp add: sm_Delete_def)

text \<open>
  The order of a \<^verbatim>\<open>Range\<close>: every choice of positions gives a permutation of the entries,
  and every permutation is given by some choice.
\<close>

lemma visit_order_cong:
  "(\<And>i. i < length xs \<Longrightarrow> p i = q i) \<Longrightarrow> visit_order p xs = visit_order q xs"
  by (induction xs) (simp_all add: Let_def)

lemma visit_order_complete:
  "length ys = length xs \<Longrightarrow> (\<forall>x. count_list ys x = count_list xs x) \<Longrightarrow>
   \<exists>pos. visit_order pos xs = ys"
proof (induction xs arbitrary: ys)
  case Nil
  then show ?case
    by simp
next
  case (Cons x xs)
  from Cons.prems(2) have "count_list ys x = Suc (count_list xs x)"
    by simp
  then have "x \<in> set ys"
    by (metis count_list_0_iff nat.distinct(1))
  then obtain as bs where ys: "ys = as @ x # bs"
    by (auto dest: split_list)
  have l: "length (as @ bs) = length xs"
    using Cons.prems(1) by (simp add: ys)
  have c: "\<forall>z. count_list (as @ bs) z = count_list xs z"
  proof
    fix z
    from Cons.prems(2) have "count_list ys z = count_list (x # xs) z"
      by blast
    then show "count_list (as @ bs) z = count_list xs z"
      by (simp add: ys split: if_splits)
  qed
  from Cons.IH [OF l c] obtain pos where p: "visit_order pos xs = as @ bs"
    by blast
  let ?pos = "pos(length xs := length as)"
  have "visit_order ?pos xs = visit_order pos xs"
    by (rule visit_order_cong) simp
  with p have "visit_order ?pos (x # xs) = ys"
    by (simp add: Let_def ys)
  then show ?case
    by blast
qed

lemma length_visit_order: "length (visit_order pos xs) = length xs"
  by (induction xs) (auto simp: Let_def)

lemma set_take_drop_un: "set (take i ys) \<union> set (drop i ys) = set ys"
  using set_append [of "take i ys" "drop i ys"] by simp

lemma set_visit_order: "set (visit_order pos xs) = set xs"
proof (induction xs)
  case Nil
  then show ?case by simp
next
  case (Cons x xs)
  let ?ys = "visit_order pos xs"
  let ?i = "pos (length xs)"
  have "set (take ?i ?ys @ x # drop ?i ?ys) = insert x (set (take ?i ?ys) \<union> set (drop ?i ?ys))"
    by auto
  also have "\<dots> = insert x (set ?ys)"
    by (simp only: set_take_drop_un)
  finally show ?case
    using Cons.IH by (simp add: Let_def)
qed

lemma distinct_map_insert:
  "distinct (map f (as @ x # bs)) = (f x \<notin> f ` set (as @ bs) \<and> distinct (map f (as @ bs)))"
  by auto

lemma distinct_map_visit_order:
  "distinct (map f (visit_order pos xs)) = distinct (map f xs)"
proof (induction xs)
  case Nil
  then show ?case by simp
next
  case (Cons x xs)
  let ?ys = "visit_order pos xs"
  let ?i = "pos (length xs)"
  have "distinct (map f (take ?i ?ys @ x # drop ?i ?ys)) =
      (f x \<notin> f ` set (take ?i ?ys @ drop ?i ?ys) \<and> distinct (map f (take ?i ?ys @ drop ?i ?ys)))"
    by (rule distinct_map_insert)
  then show ?case
    using Cons.IH by (simp add: Let_def set_visit_order)
qed

lemma visit_order_id: "visit_order (\<lambda>i. 0) xs = xs"
  by (induction xs) simp_all

lemma sm_Range_eq:
  "sm_Range m w = (l, w0) \<Longrightarrow>
   length l = length m \<and> set l = set m \<and> distinct (map fst l) = distinct (map fst m)
   \<and> w0 = w\<lparr>ranges := ranges w + 1\<rparr>"
  by (auto simp: sm_Range_def length_visit_order set_visit_order distinct_map_visit_order)

lemma rr_evict_Range_del:
  "evicts intn r k w \<Longrightarrow>
   rr_evict_Range intn r ((k, e) # l) w =
     rr_evict_Range intn (r\<lparr>rr_m := sm_Delete (rr_m r) k\<rparr>) l
       (AddInt32 (- 1) (w\<lparr>draws := draws w + 1\<rparr>))"
  by (auto simp: evicts_def as_RRCache_def rr_Delete_eq Let_def simp del: rr_Delete.simps)

lemma rr_evict_Range_keep:
  "\<not> evicts intn r k w \<Longrightarrow>
   rr_evict_Range intn r ((k, e) # l) w = rr_evict_Range intn r l (w\<lparr>draws := draws w + 1\<rparr>)"
  by (auto simp: evicts_def as_RRCache_def rr_Delete_eq Let_def simp del: rr_Delete.simps)

lemma rr_evict_Range_frame:
  "rr_evict_Range intn r l w = (r', w') \<Longrightarrow>
   draws w' = draws w + length l \<and> calls w' = calls w \<and> ranges w' = ranges w
   \<and> range_order w' = range_order w \<and> maxSize r' = maxSize r \<and> targetNum r' = targetNum r
   \<and> (\<exists>P. rr_m r' = filter P (rr_m r))"
proof (induction l arbitrary: r w)
  case Nil
  from Nil have "r' = r" "w' = w"
    by simp_all
  moreover have "\<exists>P. rr_m r = filter P (rr_m r)"
    by (rule exI [of _ "\<lambda>x. True"]) simp
  ultimately show ?case
    by simp
next
  case (Cons kv l)
  obtain k e where kv: "kv = (k, e)"
    by (cases kv)
  show ?case
  proof (cases "evicts intn r k w")
    case True
    let ?r3 = "r\<lparr>rr_m := sm_Delete (rr_m r) k\<rparr>"
    let ?w3 = "AddInt32 (- 1) (w\<lparr>draws := draws w + 1\<rparr>)"
    from Cons.prems have rec: "rr_evict_Range intn ?r3 l ?w3 = (r', w')"
      unfolding kv rr_evict_Range_del [OF True] .
    from Cons.IH [OF rec] obtain P where
      a: "draws w' = draws ?w3 + length l" "calls w' = calls ?w3" "ranges w' = ranges ?w3"
        "range_order w' = range_order ?w3" "maxSize r' = maxSize ?r3" "targetNum r' = targetNum ?r3"
      and P: "rr_m r' = filter P (rr_m ?r3)"
      by blast
    have "rr_m r' = filter (\<lambda>x. fst x \<noteq> k \<and> P x) (rr_m r)"
      using P by (simp add: sm_Delete_def conj_commute)
    then have "\<exists>P. rr_m r' = filter P (rr_m r)"
      by blast
    with a show ?thesis
      by (simp add: AddInt32_def)
  next
    case False
    let ?w2 = "w\<lparr>draws := draws w + 1\<rparr>"
    from Cons.prems have rec: "rr_evict_Range intn r l ?w2 = (r', w')"
      unfolding kv rr_evict_Range_keep [OF False] .
    from Cons.IH [OF rec] show ?thesis
      by simp
  qed
qed


lemma length_sm_Delete_present:
  "distinct (map fst m) \<Longrightarrow> sm_Load m k \<noteq> None \<Longrightarrow> Suc (length (sm_Delete m k)) = length m"
proof (induction m)
  case Nil
  then show ?case
    by (simp add: sm_Load_def)
next
  case (Cons a m)
  show ?case
  proof (cases "fst a = k")
    case True
    with Cons.prems(1) have "map_of m k = None"
      by (cases "map_of m k") (auto dest: map_of_SomeD simp: image_iff)
    from sm_Delete_absent [OF this] True show ?thesis
      by (simp add: sm_Delete_def)
  next
    case False
    with Cons show ?thesis
      by (cases a) (simp add: sm_Delete_def sm_Load_def)
  qed
qed

lemma distinct_sm_Delete: "distinct (map fst m) \<Longrightarrow> distinct (map fst (sm_Delete m k))"
  by (simp add: sm_Delete_def distinct_map_filter)

lemma evicts_iff:
  assumes "\<forall>i n. 0 \<le> intn i n \<and> intn i n < 2 ^ 31"
    and "0 \<le> targetNum r" and "targetNum r < 2 ^ 31"
    and "0 \<le> currentSize w" and "currentSize w < 2 ^ 31"
  shows "evicts intn r k w \<longleftrightarrow>
     intn (draws w) (currentSize w) < currentSize w - targetNum r \<and> sm_Load (rr_m r) k \<noteq> None"
proof -
  have n: "wrap32 (currentSize w - targetNum r) = currentSize w - targetNum r"
    using assms(2-5) by (intro wrap32_id) auto
  have rd: "wrap32 (intn (draws w) (currentSize w)) = intn (draws w) (currentSize w)"
    using assms(1) by (intro wrap32_id) (auto intro: order_trans [of _ 0])
  show ?thesis
    by (simp add: evicts_def n rd)
qed

lemma rr_evict_Range_bounds:
  "rr_evict_Range intn r l w = (r', w') \<Longrightarrow>
   \<forall>i n. 0 \<le> intn i n \<and> intn i n < 2 ^ 31 \<Longrightarrow>
   0 \<le> targetNum r \<Longrightarrow> targetNum r < 2 ^ 31 \<Longrightarrow>
   0 \<le> currentSize w \<Longrightarrow> currentSize w < 2 ^ 31 \<Longrightarrow>
   distinct (map fst (rr_m r)) \<Longrightarrow>
   min (currentSize w) (targetNum r) \<le> currentSize w' \<and> currentSize w' \<le> currentSize w
   \<and> distinct (map fst (rr_m r'))
   \<and> currentSize w - currentSize w' = int (length (rr_m r)) - int (length (rr_m r'))"
proof (induction l arbitrary: r w)
  case Nil
  then show ?case
    by simp
next
  case (Cons kv l)
  obtain k e where kv: "kv = (k, e)"
    by (cases kv)
  note ev = evicts_iff [OF Cons.prems(2-6), of k]
  show ?case
  proof (cases "evicts intn r k w")
    case True
    let ?r3 = "r\<lparr>rr_m := sm_Delete (rr_m r) k\<rparr>"
    let ?w3 = "AddInt32 (- 1) (w\<lparr>draws := draws w + 1\<rparr>)"
    from Cons.prems(1) have rec: "rr_evict_Range intn ?r3 l ?w3 = (r', w')"
      unfolding kv rr_evict_Range_del [OF True] .
    from True ev have lt: "intn (draws w) (currentSize w) < currentSize w - targetNum r"
      and pr: "sm_Load (rr_m r) k \<noteq> None"
      by simp_all
    from Cons.prems(2) have "0 \<le> intn (draws w) (currentSize w)"
      by blast
    with lt have pos: "targetNum r < currentSize w"
      by linarith
    have c3: "currentSize ?w3 = currentSize w - 1"
      using pos Cons.prems(3,6) by (simp add: AddInt32_def wrap32_id)
    have d3: "distinct (map fst (rr_m ?r3))"
      using Cons.prems(7) by (simp add: distinct_sm_Delete)
    have l3: "int (length (rr_m ?r3)) = int (length (rr_m r)) - 1"
      using length_sm_Delete_present [OF Cons.prems(7) pr] by simp
    have "min (currentSize ?w3) (targetNum ?r3) \<le> currentSize w' \<and> currentSize w' \<le> currentSize ?w3
       \<and> distinct (map fst (rr_m r'))
       \<and> currentSize ?w3 - currentSize w' = int (length (rr_m ?r3)) - int (length (rr_m r'))"
      using Cons.prems(2-6) pos c3 d3 by (intro Cons.IH [OF rec]) auto
    then show ?thesis
      using c3 l3 pos by auto
  next
    case False
    let ?w2 = "w\<lparr>draws := draws w + 1\<rparr>"
    from Cons.prems(1) have rec: "rr_evict_Range intn r l ?w2 = (r', w')"
      unfolding kv rr_evict_Range_keep [OF False] .
    have "min (currentSize ?w2) (targetNum r) \<le> currentSize w' \<and> currentSize w' \<le> currentSize ?w2
       \<and> distinct (map fst (rr_m r'))
       \<and> currentSize ?w2 - currentSize w' = int (length (rr_m r)) - int (length (rr_m r'))"
      using Cons.prems(2-7) by (intro Cons.IH [OF rec]) auto
    then show ?thesis
      by simp
  qed
qed

lemma rr_evict_Range_favourable:
  "rr_evict_Range intn r l w = (r', w') \<Longrightarrow>
   \<forall>i n. 0 \<le> intn i n \<and> intn i n < 2 ^ 31 \<Longrightarrow>
   0 \<le> targetNum r \<Longrightarrow> targetNum r < 2 ^ 31 \<Longrightarrow>
   0 \<le> currentSize w \<Longrightarrow> currentSize w < 2 ^ 31 \<Longrightarrow>
   distinct (map fst (rr_m r)) \<Longrightarrow> distinct (map fst l) \<Longrightarrow>
   fst ` set l \<subseteq> fst ` set (rr_m r) \<Longrightarrow>
   \<forall>i n. targetNum r < n \<longrightarrow> intn i n < n - targetNum r \<Longrightarrow>
   targetNum r \<le> currentSize w \<Longrightarrow>
   currentSize w' = max (targetNum r) (currentSize w - int (length l))"
proof (induction l arbitrary: r w)
  case Nil
  then show ?case
    by simp
next
  case (Cons kv l)
  obtain k e where kv: "kv = (k, e)"
    by (cases kv)
  note ev = evicts_iff [OF Cons.prems(2-6), of k]
  from Cons.prems(9) have "k \<in> fst ` set (rr_m r)"
    by (simp add: kv)
  then have pr: "sm_Load (rr_m r) k \<noteq> None"
    by (simp add: sm_Load_def map_of_eq_None_iff)
  show ?case
  proof (cases "evicts intn r k w")
    case True
    let ?r3 = "r\<lparr>rr_m := sm_Delete (rr_m r) k\<rparr>"
    let ?w3 = "AddInt32 (- 1) (w\<lparr>draws := draws w + 1\<rparr>)"
    from Cons.prems(1) have rec: "rr_evict_Range intn ?r3 l ?w3 = (r', w')"
      unfolding kv rr_evict_Range_del [OF True] .
    from True ev have lt: "intn (draws w) (currentSize w) < currentSize w - targetNum r"
      by simp
    from Cons.prems(2) have "0 \<le> intn (draws w) (currentSize w)"
      by blast
    with lt have pos: "targetNum r < currentSize w"
      by linarith
    have c3: "currentSize ?w3 = currentSize w - 1"
      using pos Cons.prems(3,6) by (simp add: AddInt32_def wrap32_id)
    have d3: "distinct (map fst (rr_m ?r3))"
      using Cons.prems(7) by (simp add: distinct_sm_Delete)
    have s3: "fst ` set l \<subseteq> fst ` set (rr_m ?r3)"
    proof
      fix a
      assume a: "a \<in> fst ` set l"
      with Cons.prems(8) have "a \<noteq> k"
        by (auto simp: kv)
      moreover from a Cons.prems(9) have "a \<in> fst ` set (rr_m r)"
        by (auto simp: kv)
      ultimately show "a \<in> fst ` set (rr_m ?r3)"
        by (force simp: sm_Delete_def)
    qed
    have "currentSize w' = max (targetNum ?r3) (currentSize ?w3 - int (length l))"
      using Cons.prems(2-6,8,10) pos c3 d3 s3 by (intro Cons.IH [OF rec]) auto
    then show ?thesis
      using c3 pos by auto
  next
    case False
    let ?w2 = "w\<lparr>draws := draws w + 1\<rparr>"
    from Cons.prems(1) have rec: "rr_evict_Range intn r l ?w2 = (r', w')"
      unfolding kv rr_evict_Range_keep [OF False] .
    from False ev pr have "\<not> intn (draws w) (currentSize w) < currentSize w - targetNum r"
      by simp
    with Cons.prems(10) have "\<not> targetNum r < currentSize w"
      by blast
    with Cons.prems(11) have eq: "currentSize w = targetNum r"
      by simp
    have s2: "fst ` set l \<subseteq> fst ` set (rr_m r)"
      using Cons.prems(9) by (simp add: kv)
    have "currentSize w' = max (targetNum r) (currentSize ?w2 - int (length l))"
      using Cons.prems(2-8,10,11) s2 by (intro Cons.IH [OF rec]) auto
    then show ?thesis
      using eq by simp
  qed
qed


lemma rr_evict_loop_stop:
  "\<not> (maxSize r < currentSize w \<and> count < 5) \<Longrightarrow> rr_evict_loop intn r count w = (r, w)"
  by (auto simp: rr_evict_loop.simps [of intn r count w])

lemma rr_evict_loop_step:
  "maxSize r < currentSize w \<Longrightarrow> count < 5 \<Longrightarrow>
   rr_evict_Range intn r (visit_order (range_order w (ranges w)) (rr_m r))
     (w\<lparr>ranges := ranges w + 1\<rparr>) = (r1, w1) \<Longrightarrow>
   rr_evict_loop intn r count w = rr_evict_loop intn r1 (Suc count) w1"
  by (simp add: rr_evict_loop.simps [of intn r count w] sm_Range_def)

lemma length_filter_le_mult: "(n::nat) * length (filter P xs) \<le> n * length xs"
  by (simp add: mult_le_mono2)

lemma rr_evict_loop_frame:
  "rr_evict_loop intn r count w = (r', w') \<Longrightarrow> count \<le> 5 \<Longrightarrow>
   calls w' = calls w \<and> range_order w' = range_order w
   \<and> maxSize r' = maxSize r \<and> targetNum r' = targetNum r
   \<and> (\<exists>P. rr_m r' = filter P (rr_m r))
   \<and> ranges w \<le> ranges w' \<and> ranges w' \<le> ranges w + (5 - count)
   \<and> draws w \<le> draws w' \<and> draws w' \<le> draws w + (5 - count) * length (rr_m r)
   \<and> (currentSize w \<le> maxSize r \<longrightarrow> r' = r \<and> w' = w)
   \<and> (maxSize r < currentSize w \<and> count < 5 \<longrightarrow>
        ranges w < ranges w' \<and> draws w + length (rr_m r) \<le> draws w')
   \<and> (maxSize r < currentSize w' \<longrightarrow> ranges w' = ranges w + (5 - count))"
proof (induction "5 - count" arbitrary: count r w)
  case 0
  then have "count = 5"
    by simp
  then have st: "rr_evict_loop intn r count w = (r, w)"
    by (intro rr_evict_loop_stop) simp
  from "0.prems"(1) [unfolded st] have e: "r' = r" "w' = w"
    by simp_all
  have "\<exists>P. rr_m r = filter P (rr_m r)"
    by (rule exI [of _ "\<lambda>x. True"]) simp
  with e \<open>count = 5\<close> show ?case
    by simp
next
  case (Suc n)
  then have c: "count < 5"
    by simp
  show ?case
  proof (cases "maxSize r < currentSize w")
    case False
    then have st: "rr_evict_loop intn r count w = (r, w)"
      by (intro rr_evict_loop_stop) simp
    from Suc.prems(1) [unfolded st] have e: "r' = r" "w' = w"
      by simp_all
    have "\<exists>P. rr_m r = filter P (rr_m r)"
      by (rule exI [of _ "\<lambda>x. True"]) simp
    with e False show ?thesis
      by simp
  next
    case True
    let ?l = "visit_order (range_order w (ranges w)) (rr_m r)"
    let ?w0 = "w\<lparr>ranges := ranges w + 1\<rparr>"
    obtain r1 w1 where s: "rr_evict_Range intn r ?l ?w0 = (r1, w1)"
      by (cases "rr_evict_Range intn r ?l ?w0")
    from rr_evict_Range_frame [OF s] obtain P1 where
      b1: "draws w1 = draws w + length (rr_m r)" "calls w1 = calls w"
        "ranges w1 = ranges w + 1" "range_order w1 = range_order w"
        "maxSize r1 = maxSize r" "targetNum r1 = targetNum r"
      and P1: "rr_m r1 = filter P1 (rr_m r)"
      by (auto simp: length_visit_order)
    from Suc.prems(1) have rec: "rr_evict_loop intn r1 (Suc count) w1 = (r', w')"
      by (simp only: rr_evict_loop_step [OF True c s])
    have n: "n = 5 - Suc count"
      using Suc.hyps(2) by simp
    have c1: "Suc count \<le> 5"
      using c by simp
    from Suc.hyps(1) [OF n rec c1] obtain P2 where
      ih: "calls w' = calls w1" "range_order w' = range_order w1"
        "maxSize r' = maxSize r1" "targetNum r' = targetNum r1"
        "ranges w1 \<le> ranges w'" "ranges w' \<le> ranges w1 + (5 - Suc count)"
        "draws w1 \<le> draws w'" "draws w' \<le> draws w1 + (5 - Suc count) * length (rr_m r1)"
        "maxSize r1 < currentSize w' \<longrightarrow> ranges w' = ranges w1 + (5 - Suc count)"
      and P2: "rr_m r' = filter P2 (rr_m r1)"
      by blast
    have f: "\<exists>P. rr_m r' = filter P (rr_m r)"
      using P1 P2 by (auto simp: filter_filter)
    have m: "(5 - Suc count) * length (rr_m r1) \<le> (5 - Suc count) * length (rr_m r)"
      unfolding P1 by (rule length_filter_le_mult)
    have e: "length (rr_m r) + (5 - Suc count) * length (rr_m r) = (5 - count) * length (rr_m r)"
    proof -
      from c have "5 - count = Suc (5 - Suc count)"
        by simp
      then show ?thesis
        by (simp only: mult_Suc)
    qed
    note ih(8)
    also from m have "draws w1 + (5 - Suc count) * length (rr_m r1) \<le>
        draws w1 + (5 - Suc count) * length (rr_m r)"
      by (rule add_left_mono)
    also have "\<dots> = draws w + (length (rr_m r) + (5 - Suc count) * length (rr_m r))"
      by (simp only: b1(1) add.assoc)
    also have "\<dots> = draws w + (5 - count) * length (rr_m r)"
      by (simp only: e)
    finally have d: "draws w' \<le> draws w + (5 - count) * length (rr_m r)" .
    have r5: "ranges w1 + (5 - Suc count) = ranges w + (5 - count)"
      using c b1(3) by simp
    from ih b1 f d r5 True c show ?thesis
      by simp
  qed
qed


lemma rr_evict_loop_bounds:
  "rr_evict_loop intn r count w = (r', w') \<Longrightarrow> count \<le> 5 \<Longrightarrow>
   \<forall>i n. 0 \<le> intn i n \<and> intn i n < 2 ^ 31 \<Longrightarrow>
   0 \<le> targetNum r \<Longrightarrow> targetNum r < 2 ^ 31 \<Longrightarrow>
   0 \<le> currentSize w \<Longrightarrow> currentSize w < 2 ^ 31 \<Longrightarrow>
   distinct (map fst (rr_m r)) \<Longrightarrow>
   min (currentSize w) (targetNum r) \<le> currentSize w' \<and> currentSize w' \<le> currentSize w
   \<and> distinct (map fst (rr_m r'))
   \<and> currentSize w - currentSize w' = int (length (rr_m r)) - int (length (rr_m r'))"
proof (induction "5 - count" arbitrary: count r w)
  case 0
  then have "count = 5"
    by simp
  then have st: "rr_evict_loop intn r count w = (r, w)"
    by (intro rr_evict_loop_stop) simp
  from "0.prems"(1) [unfolded st] have e: "r' = r" "w' = w"
    by simp_all
  with "0.prems" show ?case
    by simp
next
  case (Suc n)
  then have c: "count < 5"
    by simp
  show ?case
  proof (cases "maxSize r < currentSize w")
    case False
    then have st: "rr_evict_loop intn r count w = (r, w)"
      by (intro rr_evict_loop_stop) simp
    from Suc.prems(1) [unfolded st] have e: "r' = r" "w' = w"
      by simp_all
    with Suc.prems show ?thesis
      by simp
  next
    case True
    let ?l = "visit_order (range_order w (ranges w)) (rr_m r)"
    let ?w0 = "w\<lparr>ranges := ranges w + 1\<rparr>"
    obtain r1 w1 where s: "rr_evict_Range intn r ?l ?w0 = (r1, w1)"
      by (cases "rr_evict_Range intn r ?l ?w0")
    from rr_evict_Range_frame [OF s] have t1: "targetNum r1 = targetNum r"
      by simp
    have "min (currentSize ?w0) (targetNum r) \<le> currentSize w1 \<and> currentSize w1 \<le> currentSize ?w0
       \<and> distinct (map fst (rr_m r1))
       \<and> currentSize ?w0 - currentSize w1 = int (length (rr_m r)) - int (length (rr_m r1))"
      using Suc.prems(3-8) by (intro rr_evict_Range_bounds [OF s]) auto
    then have b1: "min (currentSize w) (targetNum r) \<le> currentSize w1"
      "currentSize w1 \<le> currentSize w" "distinct (map fst (rr_m r1))"
      "currentSize w - currentSize w1 = int (length (rr_m r)) - int (length (rr_m r1))"
      by simp_all
    from Suc.prems(1) have rec: "rr_evict_loop intn r1 (Suc count) w1 = (r', w')"
      by (simp only: rr_evict_loop_step [OF True c s])
    have n: "n = 5 - Suc count"
      using Suc.hyps(2) by simp
    have c1: "Suc count \<le> 5"
      using c by simp
    have p1: "0 \<le> currentSize w1" "currentSize w1 < 2 ^ 31"
      using b1(1,2) Suc.prems(4,6,7) by linarith+
    have "min (currentSize w1) (targetNum r1) \<le> currentSize w' \<and> currentSize w' \<le> currentSize w1
       \<and> distinct (map fst (rr_m r'))
       \<and> currentSize w1 - currentSize w' = int (length (rr_m r1)) - int (length (rr_m r'))"
      using Suc.prems(3-5) p1 b1(3) t1 by (intro Suc.hyps(1) [OF n rec c1]) auto
    with b1 t1 show ?thesis
      by auto
  qed
qed

lemma rr_evict_loop_favourable:
  "rr_evict_loop intn r count w = (r', w') \<Longrightarrow> count \<le> 5 \<Longrightarrow>
   \<forall>i n. 0 \<le> intn i n \<and> intn i n < 2 ^ 31 \<Longrightarrow>
   0 \<le> targetNum r \<Longrightarrow> targetNum r < 2 ^ 31 \<Longrightarrow>
   0 \<le> currentSize w \<Longrightarrow> currentSize w < 2 ^ 31 \<Longrightarrow>
   distinct (map fst (rr_m r)) \<Longrightarrow>
   \<forall>i n. targetNum r < n \<longrightarrow> intn i n < n - targetNum r \<Longrightarrow>
   targetNum r \<le> currentSize w \<Longrightarrow>
   currentSize w' =
     (if maxSize r < currentSize w \<and> count < 5
      then max (targetNum r) (currentSize w - int (length (rr_m r)))
      else currentSize w)"
proof (induction "5 - count" arbitrary: count r w)
  case 0
  then have "count = 5"
    by simp
  then have st: "rr_evict_loop intn r count w = (r, w)"
    by (intro rr_evict_loop_stop) simp
  from "0.prems"(1) [unfolded st] have e: "r' = r" "w' = w"
    by simp_all
  with \<open>count = 5\<close> show ?case
    by simp
next
  case (Suc n)
  then have c: "count < 5"
    by simp
  show ?case
  proof (cases "maxSize r < currentSize w")
    case False
    then have st: "rr_evict_loop intn r count w = (r, w)"
      by (intro rr_evict_loop_stop) simp
    from Suc.prems(1) [unfolded st] have e: "r' = r" "w' = w"
      by simp_all
    with False show ?thesis
      by simp
  next
    case True
    let ?l = "visit_order (range_order w (ranges w)) (rr_m r)"
    let ?w0 = "w\<lparr>ranges := ranges w + 1\<rparr>"
    obtain r1 w1 where s: "rr_evict_Range intn r ?l ?w0 = (r1, w1)"
      by (cases "rr_evict_Range intn r ?l ?w0")
    from rr_evict_Range_frame [OF s] have t1: "targetNum r1 = targetNum r"
      and m1: "maxSize r1 = maxSize r"
      by simp_all
    have "min (currentSize ?w0) (targetNum r) \<le> currentSize w1 \<and> currentSize w1 \<le> currentSize ?w0
       \<and> distinct (map fst (rr_m r1))
       \<and> currentSize ?w0 - currentSize w1 = int (length (rr_m r)) - int (length (rr_m r1))"
      using Suc.prems(3-8) by (intro rr_evict_Range_bounds [OF s]) auto
    then have b1: "currentSize w1 \<le> currentSize w" "distinct (map fst (rr_m r1))"
      "currentSize w - currentSize w1 = int (length (rr_m r)) - int (length (rr_m r1))"
      by simp_all
    have dl: "distinct (map fst ?l)"
      using Suc.prems(8) by (simp add: distinct_map_visit_order)
    have sl: "fst ` set ?l \<subseteq> fst ` set (rr_m r)"
      by (simp add: set_visit_order)
    have "currentSize w1 = max (targetNum r) (currentSize ?w0 - int (length ?l))"
      using Suc.prems(3-10) dl sl by (intro rr_evict_Range_favourable [OF s]) auto
    then have f1: "currentSize w1 = max (targetNum r) (currentSize w - int (length (rr_m r)))"
      by (simp add: length_visit_order)
    from Suc.prems(1) have rec: "rr_evict_loop intn r1 (Suc count) w1 = (r', w')"
      by (simp only: rr_evict_loop_step [OF True c s])
    have n: "n = 5 - Suc count"
      using Suc.hyps(2) by simp
    have c1: "Suc count \<le> 5"
      using c by simp
    have p1: "0 \<le> currentSize w1" "currentSize w1 < 2 ^ 31" "targetNum r1 \<le> currentSize w1"
      using f1 b1(1) Suc.prems(4,7) t1 by linarith+
    have "currentSize w' =
       (if maxSize r1 < currentSize w1 \<and> Suc count < 5
        then max (targetNum r1) (currentSize w1 - int (length (rr_m r1)))
        else currentSize w1)"
      using Suc.prems(3-5,9) p1 b1(2) t1 by (intro Suc.hyps(1) [OF n rec c1]) auto
    moreover have "currentSize w1 - int (length (rr_m r1)) = currentSize w - int (length (rr_m r))"
      using b1(3) by linarith
    ultimately show ?thesis
      using True c f1 t1 by auto
  qed
qed


lemma sm_poke_append_absent:
  "k \<notin> fst ` set xs \<Longrightarrow> sm_poke (xs @ ys) k e = xs @ sm_poke ys k e"
  by (induction xs) auto

lemma length_sm_poke: "length (sm_poke m k e) = length m"
  by (induction m) auto

lemma subseq_poke_filter:
  assumes "map_of m k = None"
  shows "subseq (sm_poke (filter P (m @ [(k, v)])) k e) (m @ [(k, e)])"
proof -
  from assms have n: "k \<notin> fst ` set (filter P m)"
    by (auto simp: map_of_eq_None_iff)
  have s: "subseq (filter P m) m"
    by simp
  show ?thesis
  proof (cases "P (k, v)")
    case True
    then have "sm_poke (filter P (m @ [(k, v)])) k e = filter P m @ [(k, e)]"
      using sm_poke_append_absent [OF n, of "[(k, v)]" e] by simp
    with s show ?thesis
      by (simp add: list_emb_append_mono)
  next
    case False
    then have "sm_poke (filter P (m @ [(k, v)])) k e = filter P m"
      using sm_poke_append_absent [OF n, of "[]" e] by simp
    with s show ?thesis
      by (simp add: list_emb_prefix)
  qed
qed






section \<open>The shared counter of a tree of \<^verbatim>\<open>RRCache\<close>s\<close>

lemma entries_append:
  "entries (DRRCache (m @ [(k, e)]) a b) = entries (DRRCache m a b) + 1 + entries_val e"
  by simp

lemma entries_poke:
  "map_of m p = Some e \<Longrightarrow>
   entries (DRRCache (sm_poke m p e') a b) + entries_val e =
   entries (DRRCache m a b) + entries_val e'"
  by (induction m) (auto split: if_splits)

lemma entries_Delete:
  "distinct (map fst m) \<Longrightarrow> map_of m k = Some e \<Longrightarrow>
   entries (DRRCache (sm_Delete m k) a b) + 1 + entries_val e = entries (DRRCache m a b)"
proof (induction m)
  case Nil
  then show ?case by simp
next
  case (Cons kv m)
  show ?case
  proof (cases "fst kv = k")
    case True
    with Cons.prems(1) have "k \<notin> fst ` set m"
      by auto
    then have "map_of m k = None"
      by (simp add: map_of_eq_None_iff)
    then have "sm_Delete m k = m"
      by (rule sm_Delete_absent)
    with True Cons.prems(2) show ?thesis
      by (cases kv) (simp add: sm_Delete_def)
  next
    case False
    with Cons.prems have "entries (DRRCache (sm_Delete m k) a b) + 1 + entries_val e =
        entries (DRRCache m a b)"
      by (intro Cons.IH) (auto split: if_splits)
    with False show ?thesis
      by (simp add: sm_Delete_def)
  qed
qed

lemma map_fst_sm_poke: "map fst (sm_poke m p e) = map fst m"
  by (induction m) auto

lemma set_sm_poke: "(a, b) \<in> set (sm_poke m p e) \<Longrightarrow> b = e \<or> (a, b) \<in> set m"
  by (induction m) (auto split: if_splits)

lemma rr_tree_append:
  "rr_tree mx tg (DRRCache m mx tg) \<Longrightarrow> map_of m k = None \<Longrightarrow> rr_tree_val mx tg e \<Longrightarrow>
   rr_tree mx tg (DRRCache (m @ [(k, e)]) mx tg)"
  by (auto simp: map_of_eq_None_iff)

lemma rr_tree_poke:
  "rr_tree mx tg (DRRCache m mx tg) \<Longrightarrow> rr_tree_val mx tg e \<Longrightarrow>
   rr_tree mx tg (DRRCache (sm_poke m p e) mx tg)"
  by (auto simp: map_fst_sm_poke dest!: set_sm_poke)

lemma rr_tree_Delete:
  "rr_tree mx tg (DRRCache m mx tg) \<Longrightarrow> rr_tree mx tg (DRRCache (sm_Delete m k) mx tg)"
  by (auto simp: sm_Delete_def distinct_map_filter)

lemma rr_tree_Load:
  "rr_tree mx tg (DRRCache m a b) \<Longrightarrow> sm_Load m k = Some e \<Longrightarrow>
   \<exists>d. e = Value True d \<and> rr_tree mx tg d"
proof -
  assume t: "rr_tree mx tg (DRRCache m a b)" and l: "sm_Load m k = Some e"
  from l have "(k, e) \<in> set m"
    by (simp add: sm_Load_def map_of_SomeD)
  then have "e \<in> snd ` set m"
    by force
  with t have "rr_tree_val mx tg e"
    by auto
  then show ?thesis
    by (cases e) simp
qed

lemma rr_tree_cache:
  "rr_tree mx tg d \<Longrightarrow> as_CacheInterface d = Some c \<Longrightarrow>
   \<exists>m. c = RR m mx tg \<and> d = DRRCache m mx tg \<and> rr_tree mx tg (DRRCache m mx tg)"
  by (cases d) (auto simp: as_CacheInterface_def)

lemma leaf_value_tree:
  "as_CacheInterface v = None \<Longrightarrow> rr_tree mx tg v \<and> entries v = 0"
  by (cases v) (auto simp: as_CacheInterface_def)

lemma AddInt32_currentSize:
  "- (2 ^ 31) \<le> currentSize w + d \<Longrightarrow> currentSize w + d < 2 ^ 31 \<Longrightarrow>
   currentSize (AddInt32 d w) = currentSize w + d"
  by (simp add: AddInt32_def wrap32_id)

lemma rr_LoadOrCall_miss:
  assumes "sm_Load (rr_m r) k = None" and "0 \<le> currentSize w"
    and "currentSize w + 1 \<le> maxSize r" and "maxSize r < 2 ^ 31"
  shows "rr_LoadOrCall intn r k gv w =
     (case gv (AddInt32 1 w) of
        (Returns v, w3) \<Rightarrow> (r\<lparr>rr_m := rr_m r @ [(k, Value True v)]\<rparr>, w3, Inr v)
      | (Panics, w3) \<Rightarrow> (r\<lparr>rr_m := rr_m r @ [(k, Value True DNil)]\<rparr>, w3, Inl ComputePanic))"
proof -
  have c: "currentSize (AddInt32 1 w) = currentSize w + 1"
    using assms(2-4) by (intro AddInt32_currentSize) auto
  have e: "rr_maybeEvict intn (r\<lparr>rr_m := rr_m r @ [(k, new_Value)]\<rparr>) (AddInt32 1 w) =
      (r\<lparr>rr_m := rr_m r @ [(k, new_Value)]\<rparr>, AddInt32 1 w)"
    using assms(3) c by simp
  from assms(1) have n: "map_of (rr_m r) k = None"
    by (simp add: sm_Load_def)
  show ?thesis
    using n e
    by (auto simp: rr_LoadOrCall_def sm_LoadOrStore_def Value_LoadOrCall_def new_Value_def
        sm_poke_append_new split: prod.splits outcome.splits simp del: rr_maybeEvict.simps)
qed


lemma rr_step_miss:
  assumes "sm_Load m p = None" and "0 \<le> currentSize w" and "currentSize w + 1 \<le> mx"
    and "mx < 2 ^ 31"
  shows "findLeafNode intn (RR m mx tg) (Some (DRRCache [] mx tg)) (p # ks) oper w =
     (case findLeafNode intn (RR [] mx tg) (Some (DRRCache [] mx tg)) ks oper (AddInt32 1 w) of
        (c2, w2, res) \<Rightarrow> (RR (m @ [(p, Value True (cache_ptr c2))]) mx tg, w2, res))"
proof -
  have "rr_LoadOrCall intn \<lparr>rr_m = m, maxSize = mx, targetNum = tg\<rparr> p
      (call_newMap (Some (DRRCache [] mx tg))) w =
      (\<lparr>rr_m = m @ [(p, Value True (DRRCache [] mx tg))], maxSize = mx, targetNum = tg\<rparr>,
       AddInt32 1 w, Inr (DRRCache [] mx tg))"
    using assms by (simp add: rr_LoadOrCall_miss call_newMap_def)
  moreover have "map_of m p = None"
    using assms(1) by (simp add: sm_Load_def)
  ultimately show ?thesis
    by (simp add: ci_LoadOrCall_def as_CacheInterface_def ci_child_changed_def
        sm_poke_append_new split: prod.splits)
qed

lemma missing_Nil: "missing c [] = 0"
  by (simp add: missing.simps)

lemma missing_miss: "sm_Load (ci_m c) p = None \<Longrightarrow> missing c (p # ks) = Suc (length ks)"
  by (simp add: missing.simps)

lemma missing_hit:
  "sm_Load (ci_m c) p = Some (Value True d) \<Longrightarrow> as_CacheInterface d = Some c' \<Longrightarrow>
   missing c (p # ks) = missing c' ks"
  by (simp add: missing.simps)

lemma missing_leaf:
  "sm_Load (ci_m c) p = Some (Value True d) \<Longrightarrow> as_CacheInterface d = None \<Longrightarrow>
   missing c (p # ks) = 0"
  by (simp add: missing.simps)

lemma missing_empty: "missing (RR [] mx tg) ks = length ks"
  by (cases ks) (simp_all add: missing.simps ci_m_def sm_Load_def)

lemma missing_snoc_le: "missing c ks \<le> missing c (ks @ [k])"
proof (induction ks arbitrary: c)
  case Nil
  then show ?case
    by (simp add: missing_Nil)
next
  case (Cons p ks)
  show ?case
  proof (cases "sm_Load (ci_m c) p")
    case None
    then show ?thesis
      by (simp add: missing_miss)
  next
    case (Some e)
    then show ?thesis
      using Cons.IH by (cases e) (auto simp: missing.simps split: option.splits bool.splits)
  qed
qed

lemma descent_rr:
  "rr_tree mx tg (DRRCache m mx tg) \<Longrightarrow> 0 \<le> currentSize w \<Longrightarrow>
   currentSize w + int (missing (RR m mx tg) ks) \<le> mx \<Longrightarrow> mx < 2 ^ 31 \<Longrightarrow>
   \<exists>plug n wa.
     ((\<forall>oper :: cache \<Rightarrow> world \<Rightarrow> cache \<times> world \<times> (panic + 'r). findLeafNode intn (RR m mx tg) (Some (DRRCache [] mx tg)) ks oper w =
          (plug (RR n mx tg), wa, Inl TypeAssertion))
      \<or> (\<forall>oper :: cache \<Rightarrow> world \<Rightarrow> cache \<times> world \<times> (panic + 'r). findLeafNode intn (RR m mx tg) (Some (DRRCache [] mx tg)) ks oper w =
            (case oper (RR n mx tg) wa of (c, wb, res) \<Rightarrow> (plug c, wb, res)))
        \<and> (\<forall>k. sm_Load n k = cell_at (RR m mx tg) (ks @ [k])
            \<and> (sm_Load n k = None \<longrightarrow>
                 missing (RR m mx tg) (ks @ [k]) = Suc (missing (RR m mx tg) ks))))
     \<and> rr_tree mx tg (DRRCache n mx tg)
     \<and> currentSize w \<le> currentSize wa \<and> currentSize wa \<le> currentSize w + int (missing (RR m mx tg) ks)
     \<and> (\<forall>c. rr_tree mx tg (cache_ptr c) \<longrightarrow>
           rr_tree mx tg (cache_ptr (plug c))
           \<and> int (entries (cache_ptr (plug c))) - int (entries (cache_ptr c)) =
             int (entries (DRRCache m mx tg)) - int (entries (DRRCache n mx tg))
             + (currentSize wa - currentSize w))"
  (is "_ \<Longrightarrow> _ \<Longrightarrow> _ \<Longrightarrow> _ \<Longrightarrow> \<exists>plug n wa. ?R m w ks plug n wa")
proof (induction ks arbitrary: m w)
  case Nil
  have "?R m w [] (\<lambda>c. c) m w"
    using Nil.prems(1) by (simp add: cell_at_single ci_m_def missing.simps)
  then show ?case
    by (rule_tac x = "\<lambda>c. c" in exI, rule_tac x = m in exI, rule_tac x = w in exI)
next
  case (Cons p ks)
  let ?nm = "Some (DRRCache [] mx tg)"
  show ?case
  proof (cases "sm_Load m p")
    case None
    let ?w1 = "AddInt32 1 w"
    have lm: "sm_Load (ci_m (RR m mx tg)) p = None"
      using None by (simp add: ci_m_def)
    note ms = missing_miss [OF lm]
    note pr3 = Cons.prems(3) [unfolded ms]
    have c1: "currentSize ?w1 = currentSize w + 1"
      using Cons.prems(2) pr3 Cons.prems(4) by (intro AddInt32_currentSize) auto
    have h: "currentSize w + 1 \<le> mx"
      using pr3 by simp
    have t0: "rr_tree mx tg (DRRCache [] mx tg)"
      by simp
    have "\<exists>plug n wa. ?R [] ?w1 ks plug n wa"
      using Cons.prems(2) pr3 Cons.prems(4) c1
      by (intro Cons.IH [OF t0]) (auto simp: missing_empty)
    then obtain plug2 n wa where ih: "?R [] ?w1 ks plug2 n wa"
      by blast
    define plug where "plug c = RR (m @ [(p, Value True (cache_ptr (plug2 c)))]) mx tg" for c
    note st = rr_step_miss [OF None Cons.prems(2) h Cons.prems(4), of intn tg ks]
    have e: "cell_at (RR m mx tg) ((p # ks) @ [k]) = None" for k
      using None by (simp add: cell_at_Cons_absent ci_m_def)
    have e0: "cell_at (RR [] mx tg) (ks @ [k]) = None" for k
      by (cases "ks @ [k]") (simp_all add: cell_at_Cons_absent ci_m_def sm_Load_def)
    have a: "(\<forall>oper :: cache \<Rightarrow> world \<Rightarrow> cache \<times> world \<times> (panic + 'r). findLeafNode intn (RR m mx tg) ?nm (p # ks) oper w =
          (plug (RR n mx tg), wa, Inl TypeAssertion))
      \<or> (\<forall>oper :: cache \<Rightarrow> world \<Rightarrow> cache \<times> world \<times> (panic + 'r). findLeafNode intn (RR m mx tg) ?nm (p # ks) oper w =
            (case oper (RR n mx tg) wa of (c, wb, res) \<Rightarrow> (plug c, wb, res)))
        \<and> (\<forall>k. sm_Load n k = cell_at (RR m mx tg) ((p # ks) @ [k])
            \<and> (sm_Load n k = None \<longrightarrow>
                 missing (RR m mx tg) ((p # ks) @ [k]) = Suc (missing (RR m mx tg) (p # ks))))"
    proof -
      from ih have "(\<forall>oper :: cache \<Rightarrow> world \<Rightarrow> cache \<times> world \<times> (panic + 'r). findLeafNode intn (RR [] mx tg) ?nm ks oper ?w1 =
            (plug2 (RR n mx tg), wa, Inl TypeAssertion))
        \<or> (\<forall>oper :: cache \<Rightarrow> world \<Rightarrow> cache \<times> world \<times> (panic + 'r). findLeafNode intn (RR [] mx tg) ?nm ks oper ?w1 =
              (case oper (RR n mx tg) wa of (c, wb, res) \<Rightarrow> (plug2 c, wb, res)))
          \<and> (\<forall>k. sm_Load n k = cell_at (RR [] mx tg) (ks @ [k])
            \<and> (sm_Load n k = None \<longrightarrow>
                 missing (RR [] mx tg) (ks @ [k]) = Suc (missing (RR [] mx tg) ks)))"
        by blast
      then show ?thesis
      proof (elim disjE conjE)
        assume "\<forall>oper :: cache \<Rightarrow> world \<Rightarrow> cache \<times> world \<times> (panic + 'r). findLeafNode intn (RR [] mx tg) ?nm ks oper ?w1 =
            (plug2 (RR n mx tg), wa, Inl TypeAssertion)"
        then have "\<forall>oper :: cache \<Rightarrow> world \<Rightarrow> cache \<times> world \<times> (panic + 'r). findLeafNode intn (RR m mx tg) ?nm (p # ks) oper w =
            (plug (RR n mx tg), wa, Inl TypeAssertion)"
          by (simp add: st plug_def del: findLeafNode.simps)
        then show ?thesis
          by blast
      next
        assume r: "\<forall>oper :: cache \<Rightarrow> world \<Rightarrow> cache \<times> world \<times> (panic + 'r). findLeafNode intn (RR [] mx tg) ?nm ks oper ?w1 =
              (case oper (RR n mx tg) wa of (c, wb, res) \<Rightarrow> (plug2 c, wb, res))"
          and k: "\<forall>k. sm_Load n k = cell_at (RR [] mx tg) (ks @ [k])
            \<and> (sm_Load n k = None \<longrightarrow>
                 missing (RR [] mx tg) (ks @ [k]) = Suc (missing (RR [] mx tg) ks))"
        from r have "\<forall>oper :: cache \<Rightarrow> world \<Rightarrow> cache \<times> world \<times> (panic + 'r). findLeafNode intn (RR m mx tg) ?nm (p # ks) oper w =
            (case oper (RR n mx tg) wa of (c, wb, res) \<Rightarrow> (plug c, wb, res))"
          by (simp add: st plug_def split: prod.splits del: findLeafNode.simps)
        moreover from k have "\<forall>k. sm_Load n k = cell_at (RR m mx tg) ((p # ks) @ [k])
            \<and> (sm_Load n k = None \<longrightarrow>
                 missing (RR m mx tg) ((p # ks) @ [k]) = Suc (missing (RR m mx tg) (p # ks)))"
          using e e0 by (simp add: ms [of "ks @ [k]" for k, simplified] ms)
        ultimately show ?thesis
          by blast
      qed
    qed
    have b: "rr_tree mx tg (cache_ptr (plug c))
           \<and> int (entries (cache_ptr (plug c))) - int (entries (cache_ptr c)) =
             int (entries (DRRCache m mx tg)) - int (entries (DRRCache n mx tg))
             + (currentSize wa - currentSize w)" if c: "rr_tree mx tg (cache_ptr c)" for c
    proof -
      from ih c have t2: "rr_tree mx tg (cache_ptr (plug2 c))"
        and e2: "int (entries (cache_ptr (plug2 c))) - int (entries (cache_ptr c)) =
             int (entries (DRRCache [] mx tg)) - int (entries (DRRCache n mx tg))
             + (currentSize wa - currentSize ?w1)"
        by blast+
      have "rr_tree mx tg (cache_ptr (plug c))"
        using rr_tree_append [OF Cons.prems(1), of p "Value True (cache_ptr (plug2 c))"] None t2
        by (simp add: plug_def cache_ptr_def sm_Load_def)
      moreover have "int (entries (cache_ptr (plug c))) =
          int (entries (DRRCache m mx tg)) + 1 + int (entries (cache_ptr (plug2 c)))"
        by (simp add: plug_def cache_ptr_def)
      ultimately show ?thesis
        using e2 c1 by simp
    qed
    have "?R m w (p # ks) plug n wa"
      using a b ih c1 by (auto simp: ms missing_empty)
    then show ?thesis
      by (rule_tac x = plug in exI, rule_tac x = n in exI, rule_tac x = wa in exI)
  next
    case (Some e)
    from rr_tree_Load [OF Cons.prems(1) Some] obtain d where
      e: "e = Value True d" and d: "rr_tree mx tg d"
      by blast
    have l: "sm_Load (ci_m (RR m mx tg)) p = Some (Value True d)"
      using Some e by (simp add: ci_m_def)
    show ?thesis
    proof (cases "as_CacheInterface d")
      case None
      have "\<forall>oper :: cache \<Rightarrow> world \<Rightarrow> cache \<times> world \<times> (panic + 'r).
          findLeafNode intn (RR m mx tg) ?nm (p # ks) oper w = (RR m mx tg, w, Inl TypeAssertion)"
        by (simp add: findLeafNode_step_leaf [OF l None] del: findLeafNode.simps)
      then have "?R m w (p # ks) (\<lambda>c. c) m w"
        using Cons.prems(1) by (simp del: findLeafNode.simps)
      then show ?thesis
        by (rule_tac x = "\<lambda>c. c" in exI, rule_tac x = m in exI, rule_tac x = w in exI)
    next
      case (Some child)
      from rr_tree_cache [OF d Some] obtain m2 where
        child: "child = RR m2 mx tg" and dm: "d = DRRCache m2 mx tg"
        and t2: "rr_tree mx tg (DRRCache m2 mx tg)"
        by blast
      have mh: "missing (RR m mx tg) (p # qs) = missing (RR m2 mx tg) qs" for qs
        using missing_hit [OF l Some] by (simp add: child)
      have "\<exists>plug n wa. ?R m2 w ks plug n wa"
        using Cons.prems(2-4) by (intro Cons.IH [OF t2]) (auto simp: mh)
      then obtain plug2 n wa where ih: "?R m2 w ks plug2 n wa"
        by blast
      define plug where "plug c = ci_child_changed (RR m mx tg) p (plug2 c)" for c
      note st = findLeafNode_step_hit [OF l Some, of intn ?nm ks, unfolded child]
      have ce: "cell_at (RR m mx tg) ((p # ks) @ [k]) = cell_at (RR m2 mx tg) (ks @ [k])" for k
        using cell_at_Cons_hit [OF l Some, of "ks @ [k]"] by (simp add: child)
      have a: "(\<forall>oper :: cache \<Rightarrow> world \<Rightarrow> cache \<times> world \<times> (panic + 'r). findLeafNode intn (RR m mx tg) ?nm (p # ks) oper w =
            (plug (RR n mx tg), wa, Inl TypeAssertion))
        \<or> (\<forall>oper :: cache \<Rightarrow> world \<Rightarrow> cache \<times> world \<times> (panic + 'r). findLeafNode intn (RR m mx tg) ?nm (p # ks) oper w =
              (case oper (RR n mx tg) wa of (c, wb, res) \<Rightarrow> (plug c, wb, res)))
          \<and> (\<forall>k. sm_Load n k = cell_at (RR m mx tg) ((p # ks) @ [k])
            \<and> (sm_Load n k = None \<longrightarrow>
                 missing (RR m mx tg) ((p # ks) @ [k]) = Suc (missing (RR m mx tg) (p # ks))))"
      proof -
        from ih have "(\<forall>oper :: cache \<Rightarrow> world \<Rightarrow> cache \<times> world \<times> (panic + 'r). findLeafNode intn (RR m2 mx tg) ?nm ks oper w =
              (plug2 (RR n mx tg), wa, Inl TypeAssertion))
          \<or> (\<forall>oper :: cache \<Rightarrow> world \<Rightarrow> cache \<times> world \<times> (panic + 'r). findLeafNode intn (RR m2 mx tg) ?nm ks oper w =
                (case oper (RR n mx tg) wa of (c, wb, res) \<Rightarrow> (plug2 c, wb, res)))
            \<and> (\<forall>k. sm_Load n k = cell_at (RR m2 mx tg) (ks @ [k])
            \<and> (sm_Load n k = None \<longrightarrow>
                 missing (RR m2 mx tg) (ks @ [k]) = Suc (missing (RR m2 mx tg) ks)))"
          by blast
        then show ?thesis
        proof (elim disjE conjE)
          assume "\<forall>oper :: cache \<Rightarrow> world \<Rightarrow> cache \<times> world \<times> (panic + 'r). findLeafNode intn (RR m2 mx tg) ?nm ks oper w =
              (plug2 (RR n mx tg), wa, Inl TypeAssertion)"
          then have "\<forall>oper :: cache \<Rightarrow> world \<Rightarrow> cache \<times> world \<times> (panic + 'r). findLeafNode intn (RR m mx tg) ?nm (p # ks) oper w =
              (plug (RR n mx tg), wa, Inl TypeAssertion)"
            by (simp add: st plug_def del: findLeafNode.simps)
          then show ?thesis
            by blast
        next
          assume r: "\<forall>oper :: cache \<Rightarrow> world \<Rightarrow> cache \<times> world \<times> (panic + 'r). findLeafNode intn (RR m2 mx tg) ?nm ks oper w =
                (case oper (RR n mx tg) wa of (c, wb, res) \<Rightarrow> (plug2 c, wb, res))"
            and k: "\<forall>k. sm_Load n k = cell_at (RR m2 mx tg) (ks @ [k])
            \<and> (sm_Load n k = None \<longrightarrow>
                 missing (RR m2 mx tg) (ks @ [k]) = Suc (missing (RR m2 mx tg) ks))"
          from r have "\<forall>oper :: cache \<Rightarrow> world \<Rightarrow> cache \<times> world \<times> (panic + 'r). findLeafNode intn (RR m mx tg) ?nm (p # ks) oper w =
              (case oper (RR n mx tg) wa of (c, wb, res) \<Rightarrow> (plug c, wb, res))"
            by (simp add: st plug_def split: prod.splits del: findLeafNode.simps)
          moreover from k have "\<forall>k. sm_Load n k = cell_at (RR m mx tg) ((p # ks) @ [k])
            \<and> (sm_Load n k = None \<longrightarrow>
                 missing (RR m mx tg) ((p # ks) @ [k]) = Suc (missing (RR m mx tg) (p # ks)))"
            using ce by (simp add: mh)
          ultimately show ?thesis
            by blast
        qed
      qed
      have mp: "map_of m p = Some (Value True (DRRCache m2 mx tg))"
        using l by (simp add: ci_m_def sm_Load_def dm)
      have b: "rr_tree mx tg (cache_ptr (plug c))
           \<and> int (entries (cache_ptr (plug c))) - int (entries (cache_ptr c)) =
             int (entries (DRRCache m mx tg)) - int (entries (DRRCache n mx tg))
             + (currentSize wa - currentSize w)" if c: "rr_tree mx tg (cache_ptr c)" for c
      proof -
        from ih c have t3: "rr_tree mx tg (cache_ptr (plug2 c))"
          and e2: "int (entries (cache_ptr (plug2 c))) - int (entries (cache_ptr c)) =
               int (entries (DRRCache m2 mx tg)) - int (entries (DRRCache n mx tg))
               + (currentSize wa - currentSize w)"
          by blast+
        have pc: "cache_ptr (plug c) =
            DRRCache (sm_poke m p (Value True (cache_ptr (plug2 c)))) mx tg"
          by (simp add: plug_def ci_child_changed_def cache_ptr_def)
        have "rr_tree mx tg (cache_ptr (plug c))"
          using rr_tree_poke [OF Cons.prems(1), of "Value True (cache_ptr (plug2 c))" p] t3
          by (simp add: pc)
        moreover have "int (entries (cache_ptr (plug c))) + int (entries (DRRCache m2 mx tg)) =
            int (entries (DRRCache m mx tg)) + int (entries (cache_ptr (plug2 c)))"
          using entries_poke [OF mp, of "Value True (cache_ptr (plug2 c))" mx tg]
          by (simp add: pc)
        ultimately show ?thesis
          using e2 by simp
      qed
      have "?R m w (p # ks) plug n wa"
        using a b ih by (auto simp: mh)
      then show ?thesis
        by (rule_tac x = plug in exI, rule_tac x = n in exI, rule_tac x = wa in exI)
    qed
  qed
qed


lemma descent_balance:
  fixes oper :: "cache \<Rightarrow> world \<Rightarrow> cache \<times> world \<times> (panic + 'r)"
  assumes t: "rr_tree mx tg (DRRCache m mx tg)" and c0: "0 \<le> currentSize w"
    and h: "currentSize w + int (missing (RR m mx tg) ks) \<le> mx" and mx: "mx < 2 ^ 31"
    and spec: "\<And>n wa c wb res. rr_tree mx tg (DRRCache n mx tg) \<Longrightarrow>
        currentSize w \<le> currentSize wa \<Longrightarrow> currentSize wa \<le> currentSize w + int (missing (RR m mx tg) ks) \<Longrightarrow>
        \<forall>k. sm_Load n k = cell_at (RR m mx tg) (ks @ [k])
            \<and> (sm_Load n k = None \<longrightarrow>
                 missing (RR m mx tg) (ks @ [k]) = Suc (missing (RR m mx tg) ks)) \<Longrightarrow>
        oper (RR n mx tg) wa = (c, wb, res) \<Longrightarrow>
        rr_tree mx tg (cache_ptr c)
        \<and> int (entries (cache_ptr c)) - currentSize wb =
          int (entries (DRRCache n mx tg)) - currentSize wa"
    and f: "findLeafNode intn (RR m mx tg) (Some (DRRCache [] mx tg)) ks oper w = (c', w', res')"
  shows "rr_tree mx tg (cache_ptr c')
       \<and> int (entries (cache_ptr c')) - currentSize w' = int (entries (DRRCache m mx tg)) - currentSize w"
proof -
  from descent_rr [OF t c0 h mx, of intn, where ?'r = 'r] obtain plug n wa where
    d: "(\<forall>oper :: cache \<Rightarrow> world \<Rightarrow> cache \<times> world \<times> (panic + 'r).
          findLeafNode intn (RR m mx tg) (Some (DRRCache [] mx tg)) ks oper w =
          (plug (RR n mx tg), wa, Inl TypeAssertion))
      \<or> (\<forall>oper :: cache \<Rightarrow> world \<Rightarrow> cache \<times> world \<times> (panic + 'r).
            findLeafNode intn (RR m mx tg) (Some (DRRCache [] mx tg)) ks oper w =
            (case oper (RR n mx tg) wa of (c, wb, res) \<Rightarrow> (plug c, wb, res)))
        \<and> (\<forall>k. sm_Load n k = cell_at (RR m mx tg) (ks @ [k])
            \<and> (sm_Load n k = None \<longrightarrow>
                 missing (RR m mx tg) (ks @ [k]) = Suc (missing (RR m mx tg) ks)))"
    and tn: "rr_tree mx tg (DRRCache n mx tg)"
    and b: "currentSize w \<le> currentSize wa" "currentSize wa \<le> currentSize w + int (missing (RR m mx tg) ks)"
    and pl: "\<forall>c. rr_tree mx tg (cache_ptr c) \<longrightarrow>
           rr_tree mx tg (cache_ptr (plug c))
           \<and> int (entries (cache_ptr (plug c))) - int (entries (cache_ptr c)) =
             int (entries (DRRCache m mx tg)) - int (entries (DRRCache n mx tg))
             + (currentSize wa - currentSize w)"
    by blast
  from d show ?thesis
  proof (elim disjE conjE)
    assume "\<forall>oper :: cache \<Rightarrow> world \<Rightarrow> cache \<times> world \<times> (panic + 'r).
          findLeafNode intn (RR m mx tg) (Some (DRRCache [] mx tg)) ks oper w =
          (plug (RR n mx tg), wa, Inl TypeAssertion)"
    with f have e: "c' = plug (RR n mx tg)" "w' = wa"
      by simp_all
    have "rr_tree mx tg (cache_ptr (RR n mx tg))"
      using tn by (simp add: cache_ptr_def)
    with pl have "rr_tree mx tg (cache_ptr (plug (RR n mx tg)))
           \<and> int (entries (cache_ptr (plug (RR n mx tg)))) - int (entries (cache_ptr (RR n mx tg))) =
             int (entries (DRRCache m mx tg)) - int (entries (DRRCache n mx tg))
             + (currentSize wa - currentSize w)"
      by blast
    then show ?thesis
      by (simp add: e cache_ptr_def)
  next
    assume r: "\<forall>oper :: cache \<Rightarrow> world \<Rightarrow> cache \<times> world \<times> (panic + 'r).
            findLeafNode intn (RR m mx tg) (Some (DRRCache [] mx tg)) ks oper w =
            (case oper (RR n mx tg) wa of (c, wb, res) \<Rightarrow> (plug c, wb, res))"
      and k: "\<forall>k. sm_Load n k = cell_at (RR m mx tg) (ks @ [k])
            \<and> (sm_Load n k = None \<longrightarrow>
                 missing (RR m mx tg) (ks @ [k]) = Suc (missing (RR m mx tg) ks))"
    obtain c wb res where o: "oper (RR n mx tg) wa = (c, wb, res)"
      by (metis prod_cases3)
    with r f have e: "c' = plug c" "w' = wb"
      by simp_all
    from spec [OF tn b k o] have s: "rr_tree mx tg (cache_ptr c)"
      "int (entries (cache_ptr c)) - currentSize wb =
          int (entries (DRRCache n mx tg)) - currentSize wa"
      by simp_all
    from pl s(1) have "rr_tree mx tg (cache_ptr (plug c))
           \<and> int (entries (cache_ptr (plug c))) - int (entries (cache_ptr c)) =
             int (entries (DRRCache m mx tg)) - int (entries (DRRCache n mx tg))
             + (currentSize wa - currentSize w)"
      by blast
    with s(2) show ?thesis
      by (simp add: e)
  qed
qed

lemma LoadOrCall_at_balance:
  assumes t: "rr_tree mx tg (DRRCache n mx tg)" and c0: "0 \<le> currentSize wa"
    and hh: "sm_Load n k = None \<longrightarrow> currentSize wa + 1 \<le> mx"
    and mx: "mx < 2 ^ 31" and lf: "leaf_compute f"
    and o: "LoadOrCall_at intn k f (RR n mx tg) wa = (c, wb, res)"
  shows "rr_tree mx tg (cache_ptr c)
       \<and> int (entries (cache_ptr c)) - currentSize wb =
         int (entries (DRRCache n mx tg)) - currentSize wa"
proof (cases "sm_Load n k")
  case None
  with hh have h: "currentSize wa + 1 \<le> mx"
    by simp
  have c1: "currentSize (AddInt32 1 wa) = currentSize wa + 1"
    using c0 h mx by (intro AddInt32_currentSize) auto
  have m: "map_of n k = None"
    using None by (simp add: sm_Load_def)
  show ?thesis
  proof (cases "out f")
    case Panics
    with o None c0 h mx have "c = RR (n @ [(k, Value True DNil)]) mx tg"
      and "currentSize wb = currentSize wa + 1"
      by (auto simp: LoadOrCall_at_def ci_LoadOrCall_def rr_LoadOrCall_miss call_def c1)
    then show ?thesis
      using rr_tree_append [OF t m, of "Value True DNil"] by (simp add: cache_ptr_def)
  next
    case (Returns v)
    with lf have "as_CacheInterface v = None"
      by (simp add: leaf_compute_def)
    from leaf_value_tree [OF this, of mx tg] have v: "rr_tree mx tg v" "entries v = 0"
      by simp_all
    from Returns o None c0 h mx have "c = RR (n @ [(k, Value True v)]) mx tg"
      and "currentSize wb = currentSize wa + 1"
      by (auto simp: LoadOrCall_at_def ci_LoadOrCall_def rr_LoadOrCall_miss call_def c1)
    then show ?thesis
      using rr_tree_append [OF t m, of "Value True v"] v by (simp add: cache_ptr_def)
  qed
next
  case (Some e)
  from rr_tree_Load [OF t Some] obtain d where "e = Value True d"
    by blast
  with Some o have "c = RR n mx tg" and "wb = wa"
    by (simp_all add: LoadOrCall_at_def ci_LoadOrCall_def rr_LoadOrCall_hit)
  with t show ?thesis
    by (simp add: cache_ptr_def)
qed

lemma Delete_at_balance:
  assumes t: "rr_tree mx tg (DRRCache n mx tg)" and c0: "0 \<le> currentSize wa"
    and h: "currentSize wa \<le> mx" and mx: "mx < 2 ^ 31"
    and z: "\<forall>v. sm_Load n k = Some (Value True v) \<longrightarrow> entries v = 0"
    and o: "Delete_at k (RR n mx tg) wa = (c, wb, res)"
  shows "rr_tree mx tg (cache_ptr c)
       \<and> int (entries (cache_ptr c)) - currentSize wb =
         int (entries (DRRCache n mx tg)) - currentSize wa"
proof (cases "sm_Load n k")
  case None
  with o have "c = RR n mx tg" and "wb = wa"
    by (simp_all add: Delete_at_def ci_Delete_def rr_Delete_eq del: rr_Delete.simps)
  with t show ?thesis
    by (simp add: cache_ptr_def)
next
  case (Some e)
  from rr_tree_Load [OF t Some] obtain d where e: "e = Value True d"
    by blast
  with z Some have d: "entries d = 0"
    by simp
  have c1: "currentSize (AddInt32 (- 1) wa) = currentSize wa - 1"
    using c0 h mx AddInt32_currentSize [of wa "- 1"] by simp
  from Some o have c: "c = RR (sm_Delete n k) mx tg" and wb: "wb = AddInt32 (- 1) wa"
    by (auto simp: Delete_at_def ci_Delete_def rr_Delete_eq simp del: rr_Delete.simps)
  from t have "distinct (map fst n)"
    by simp
  from entries_Delete [OF this, of k e mx tg] Some e d
  have "entries (DRRCache (sm_Delete n k) mx tg) + 1 = entries (DRRCache n mx tg)"
    by (simp add: sm_Load_def)
  then have "int (entries (DRRCache (sm_Delete n k) mx tg)) + 1 = int (entries (DRRCache n mx tg))"
    by linarith
  then show ?thesis
    using rr_tree_Delete [OF t, of k] by (simp add: c wb c1 cache_ptr_def)
qed


lemma getRoot_rr:
  assumes "rr_inv mx tg mm w"
  shows "\<exists>m. (\<forall>w'. getRoot mm w' =
          (\<lparr>mlm_v = Value True (DRRCache m mx tg), mlm_newMap = Some (DRRCache [] mx tg)\<rparr>, w',
           Inr (RR m mx tg)))
      \<and> rr_tree mx tg (DRRCache m mx tg)
      \<and> currentSize w = int (entries (DRRCache m mx tg))
      \<and> (\<forall>path. cell_at (RR m mx tg) path = mlm_cell_at mm path)
      \<and> (\<forall>path. missing (RR m mx tg) path = mlm_missing mm path)"
proof (cases "mlm_v mm")
  case (Value b d)
  from assms have nm: "mlm_newMap mm = Some (DRRCache [] mx tg)"
    by (simp add: rr_inv_def)
  show ?thesis
  proof (cases b)
    case True
    with assms Value have a: "as_CacheInterface d \<noteq> None" and t: "rr_tree mx tg d"
      and c: "currentSize w = int (entries d)"
      by (simp_all add: rr_inv_def)
    from a obtain root where r: "as_CacheInterface d = Some root"
      by blast
    from rr_tree_cache [OF t r] obtain m where m: "root = RR m mx tg" "d = DRRCache m mx tg"
      by blast
    have "getRoot mm w' = (mm, w', Inr (RR m mx tg))" for w'
      using Value True r m by (simp add: getRoot_done)
    moreover have "mm = \<lparr>mlm_v = Value True (DRRCache m mx tg),
        mlm_newMap = Some (DRRCache [] mx tg)\<rparr>"
      using Value True m nm by simp
    moreover have "cell_at (RR m mx tg) path = mlm_cell_at mm path" for path
      using Value True r m by (simp add: mlm_cell_at_def)
    moreover have "missing (RR m mx tg) path = mlm_missing mm path" for path
      using Value True r m by (simp add: mlm_missing_def)
    ultimately show ?thesis
      using t c m by auto
  next
    case False
    with assms Value have c: "currentSize w = 0"
      by (simp add: rr_inv_def)
    have "getRoot mm w' =
        (\<lparr>mlm_v = Value True (DRRCache [] mx tg), mlm_newMap = Some (DRRCache [] mx tg)\<rparr>, w',
         Inr (RR [] mx tg))" for w'
      using Value False nm by (simp add: getRoot_def Value_LoadOrCall_def as_CacheInterface_def)
    moreover have "mlm_cell_at mm path = None" for path
      using Value False by (simp add: mlm_cell_at_def)
    moreover have "cell_at (RR [] mx tg) path = None" for path
      by (cases path) (simp_all add: cell_at_Nil cell_at_Cons_absent ci_m_def sm_Load_def)
    moreover have "mlm_missing mm path = length path" for path
      using Value False by (simp add: mlm_missing_def)
    ultimately show ?thesis
      using c by (simp add: missing_empty)
  qed
qed

lemma rr_inv_LoadOrCall:
  assumes inv: "rr_inv mx tg mm w" and mx: "mx < 2 ^ 31" and lf: "leaf_compute f"
    and h: "currentSize w + int (mlm_missing mm path) \<le> mx"
    and o: "MultiLevelMap_LoadOrCall intn mm f path w = (mm', w', res)"
  shows "rr_inv mx tg mm' w'"
proof (cases "path = []")
  case True
  with o inv show ?thesis
    by (simp add: MultiLevelMap_LoadOrCall_def)
next
  case False
  from getRoot_rr [OF inv] obtain m where
    g: "\<forall>w'. getRoot mm w' =
          (\<lparr>mlm_v = Value True (DRRCache m mx tg), mlm_newMap = Some (DRRCache [] mx tg)\<rparr>, w',
           Inr (RR m mx tg))"
    and t: "rr_tree mx tg (DRRCache m mx tg)"
    and c: "currentSize w = int (entries (DRRCache m mx tg))"
    and ms: "\<forall>path. missing (RR m mx tg) path = mlm_missing mm path"
    by blast
  obtain root' w2 res2 where
    f: "findLeafNode intn (RR m mx tg) (Some (DRRCache [] mx tg)) (butlast path)
          (LoadOrCall_at intn (last path) f) w = (root', w2, res2)"
    by (metis prod_cases3)
  from o False g f have e: "mm' = \<lparr>mlm_v = Value True (cache_ptr root'),
      mlm_newMap = Some (DRRCache [] mx tg)\<rparr>" "w' = w2"
    by (simp_all add: MultiLevelMap_LoadOrCall_def root_changed_def)
  have c0: "0 \<le> currentSize w"
    using c by simp
  have p: "butlast path @ [last path] = path"
    using False by simp
  have hm: "currentSize w + int (missing (RR m mx tg) path) \<le> mx"
    using h ms by simp
  have h': "currentSize w + int (missing (RR m mx tg) (butlast path)) \<le> mx"
    using hm missing_snoc_le [of "RR m mx tg" "butlast path" "last path"] by (simp add: p)
  have "rr_tree mx tg (cache_ptr root')
       \<and> int (entries (cache_ptr root')) - currentSize w2 =
         int (entries (DRRCache m mx tg)) - currentSize w"
  proof (rule descent_balance [OF t c0 h' mx _ f])
    fix n wa c wb res
    assume tn: "rr_tree mx tg (DRRCache n mx tg)" and b1: "currentSize w \<le> currentSize wa"
      and b2: "currentSize wa \<le> currentSize w + int (missing (RR m mx tg) (butlast path))"
      and k: "\<forall>k. sm_Load n k = cell_at (RR m mx tg) (butlast path @ [k])
            \<and> (sm_Load n k = None \<longrightarrow>
                 missing (RR m mx tg) (butlast path @ [k]) = Suc (missing (RR m mx tg) (butlast path)))"
      and op: "LoadOrCall_at intn (last path) f (RR n mx tg) wa = (c, wb, res)"
    have a0: "0 \<le> currentSize wa"
      using c0 b1 by linarith
    have a1: "sm_Load n (last path) = None \<longrightarrow> currentSize wa + 1 \<le> mx"
    proof
      assume "sm_Load n (last path) = None"
      with k have "missing (RR m mx tg) path = Suc (missing (RR m mx tg) (butlast path))"
        using p by metis
      with hm b2 show "currentSize wa + 1 \<le> mx"
        by linarith
    qed
    from LoadOrCall_at_balance [OF tn a0 a1 mx lf op]
    show "rr_tree mx tg (cache_ptr c)
        \<and> int (entries (cache_ptr c)) - currentSize wb =
          int (entries (DRRCache n mx tg)) - currentSize wa" .
  qed
  with c show ?thesis
    by (simp add: rr_inv_def e as_CacheInterface_cache_ptr)
qed

lemma rr_inv_Prune:
  assumes inv: "rr_inv mx tg mm w" and mx: "mx < 2 ^ 31"
    and h: "currentSize w + int (mlm_missing mm (butlast path)) \<le> mx"
    and z: "\<forall>v. mlm_cell_at mm path = Some (Value True v) \<longrightarrow> entries v = 0"
    and o: "MultiLevelMap_Prune intn mm path w = (mm', w', res)"
  shows "rr_inv mx tg mm' w'"
proof (cases "path = []")
  case True
  with o inv show ?thesis
    by (simp add: MultiLevelMap_Prune_def)
next
  case False
  from getRoot_rr [OF inv] obtain m where
    g: "\<forall>w'. getRoot mm w' =
          (\<lparr>mlm_v = Value True (DRRCache m mx tg), mlm_newMap = Some (DRRCache [] mx tg)\<rparr>, w',
           Inr (RR m mx tg))"
    and t: "rr_tree mx tg (DRRCache m mx tg)"
    and c: "currentSize w = int (entries (DRRCache m mx tg))"
    and ce: "\<forall>path. cell_at (RR m mx tg) path = mlm_cell_at mm path"
    and ms: "\<forall>path. missing (RR m mx tg) path = mlm_missing mm path"
    by blast
  obtain root' w2 res2 where
    f: "findLeafNode intn (RR m mx tg) (Some (DRRCache [] mx tg)) (butlast path)
          (Delete_at (last path)) w = (root', w2, res2)"
    by (metis prod_cases3)
  from o False g f have e: "mm' = \<lparr>mlm_v = Value True (cache_ptr root'),
      mlm_newMap = Some (DRRCache [] mx tg)\<rparr>" "w' = w2"
    by (simp_all add: MultiLevelMap_Prune_def root_changed_def)
  have c0: "0 \<le> currentSize w"
    using c by simp
  have h': "currentSize w + int (missing (RR m mx tg) (butlast path)) \<le> mx"
    using h ms by simp
  have p: "butlast path @ [last path] = path"
    using False by simp
  have "rr_tree mx tg (cache_ptr root')
       \<and> int (entries (cache_ptr root')) - currentSize w2 =
         int (entries (DRRCache m mx tg)) - currentSize w"
  proof (rule descent_balance [OF t c0 h' mx _ f])
    fix n wa c wb res
    assume tn: "rr_tree mx tg (DRRCache n mx tg)" and b1: "currentSize w \<le> currentSize wa"
      and b2: "currentSize wa \<le> currentSize w + int (missing (RR m mx tg) (butlast path))"
      and k: "\<forall>k. sm_Load n k = cell_at (RR m mx tg) (butlast path @ [k])
            \<and> (sm_Load n k = None \<longrightarrow>
                 missing (RR m mx tg) (butlast path @ [k]) = Suc (missing (RR m mx tg) (butlast path)))"
      and op: "Delete_at (last path) (RR n mx tg) wa = (c, wb, res)"
    have b: "0 \<le> currentSize wa" "currentSize wa \<le> mx"
      using c0 b1 b2 h' by linarith+
    from k ce have "sm_Load n (last path) = mlm_cell_at mm path"
      by (simp add: p)
    with z have "\<forall>v. sm_Load n (last path) = Some (Value True v) \<longrightarrow> entries v = 0"
      by simp
    from Delete_at_balance [OF tn b mx this op]
    show "rr_tree mx tg (cache_ptr c)
        \<and> int (entries (cache_ptr c)) - currentSize wb =
          int (entries (DRRCache n mx tg)) - currentSize wa" .
  qed
  with c show ?thesis
    by (simp add: rr_inv_def e as_CacheInterface_cache_ptr)
qed

lemma rr_reach_inv:
  "rr_reach intn mx tg s \<Longrightarrow> mx < 2 ^ 31 \<Longrightarrow> rr_inv mx tg (fst s) (snd s)"
proof (induction rule: rr_reach.induct)
  case (start w)
  then show ?case
    by (simp add: rr_inv_def NewMultiLevelMap_def new_Value_def)
next
  case (load mm w f path mm' w' res)
  then show ?case
    using rr_inv_LoadOrCall [of mx tg mm w f path intn mm' w' res] by simp
next
  case (prune mm w path mm' w' res')
  then show ?case
    using rr_inv_Prune [of mx tg mm w path intn mm' w' res'] by simp
qed





section \<open>A \<^verbatim>\<open>Cache\<close> on an \<^verbatim>\<open>LRUMap\<close>\<close>

lemma lru_evict_map:
  "distinct (llist w) \<Longrightarrow> \<forall>x\<in>set (llist w). lelems w x \<noteq> None \<Longrightarrow> 0 \<le> lru_maxSize l \<Longrightarrow>
   \<forall>x\<in>set (drop (nat (lru_maxSize l)) (llist w)). \<forall>kv. lelems w x = Some kv \<longrightarrow>
      \<not> (kvM kv = a \<and> kvKey kv = k) \<Longrightarrow>
   map_of (lmaps (fst (lru_evict l w)) a) k = map_of (lmaps w a) k"
proof (induction l w rule: lru_evict.induct)
  case (1 l w)
  show ?case
  proof (cases "int (length (llist w)) > lru_maxSize l")
    case False
    then show ?thesis
      by (simp add: lru_evict.simps [of l w])
  next
    case True
    with "1.prems"(3) have ne: "llist w \<noteq> []"
      by auto
    then have b: "list_Back (llist w) = Some (last (llist w))"
      by (simp add: list_Back_def)
    from ne "1.prems"(2) obtain kv where kv: "lelems w (last (llist w)) = Some kv"
      by (metis last_in_set not_None_eq)
    let ?w1 = "w\<lparr>lmaps := (lmaps w)(kvM kv := map_delete (lmaps w (kvM kv)) (kvKey kv)),
                  llist := list_Remove (last (llist w)) (llist w)\<rparr>"
    have r: "llist ?w1 = butlast (llist w)"
      using ne "1.prems"(1) by (simp add: list_Remove_def remove1_last_distinct)
    have d: "distinct (llist ?w1)"
      using "1.prems"(1) by (simp add: r distinct_butlast)
    have e: "\<forall>x\<in>set (llist ?w1). lelems ?w1 x \<noteq> None"
      using "1.prems"(2) by (auto simp: r dest: in_set_butlastD)
    have "drop (nat (lru_maxSize l)) (llist w) \<noteq> []"
      using True "1.prems"(3) by simp
    then have "last (llist w) \<in> set (drop (nat (lru_maxSize l)) (llist w))"
      using last_drop [of "nat (lru_maxSize l)" "llist w"] True "1.prems"(3)
      by (metis last_in_set nat_less_iff)
    with "1.prems"(4) kv have nk: "\<not> (kvM kv = a \<and> kvKey kv = k)"
      by blast
    have s: "\<forall>x\<in>set (drop (nat (lru_maxSize l)) (llist ?w1)). \<forall>kv. lelems ?w1 x = Some kv \<longrightarrow>
        \<not> (kvM kv = a \<and> kvKey kv = k)"
      using "1.prems"(4) by (auto simp: r butlast_drop [symmetric] dest: in_set_butlastD)
    from "1.IH" [OF True b kv d e "1.prems"(3) s]
    have "map_of (lmaps (fst (lru_evict l ?w1)) a) k = map_of (lmaps ?w1 a) k" .
    also have "\<dots> = map_of (lmaps w a) k"
      using nk by (auto simp: map_of_map_delete)
    finally show ?thesis
      using True b kv by (simp add: lru_evict.simps [of l w])
  qed
qed


lemma lru_LoadOrStore_miss_state:
  assumes m: "map_of (lmaps w (lru_m l)) k = None" and c: "1 \<le> lru_maxSize l"
    and d: "distinct (llist w)" and f: "lfresh w \<notin> set (llist w)"
    and e: "\<forall>x\<in>set (llist w). lelems w x \<noteq> None"
    and st: "\<forall>x\<in>set (llist w). \<forall>kv. lelems w x = Some kv \<longrightarrow>
        \<not> (kvM kv = lru_m l \<and> kvKey kv = k)"
  shows "\<exists>w'. lru_LoadOrStore l k v w = (w', Inr (v, False))
      \<and> map_of (lmaps w' (lru_m l)) k = Some (lfresh w)
      \<and> lelems w' (lfresh w) = Some \<lparr>kvM = lru_m l, kvKey = k, kvValue = v\<rparr>
      \<and> (\<exists>rest. llist w' = lfresh w # rest)"
proof -
  let ?w1 = "w\<lparr>llist := lfresh w # llist w,
                lelems := (lelems w)(lfresh w \<mapsto> \<lparr>kvM = lru_m l, kvKey = k, kvValue = v\<rparr>),
                lmaps := (lmaps w)(lru_m l := lmaps w (lru_m l) @ [(k, lfresh w)]),
                lfresh := lfresh w + 1\<rparr>"
  have d1: "distinct (llist ?w1)"
    using d f by simp
  have e1: "\<forall>x\<in>set (llist ?w1). lelems ?w1 x \<noteq> None"
    using e by simp
  have c0: "0 \<le> lru_maxSize l"
    using c by simp
  from lru_evict_take [OF d1 e1 c0] obtain w' where
    w': "lru_evict l ?w1 = (w', True)" "llist w' = take (nat (lru_maxSize l)) (llist ?w1)"
      "lelems w' = lelems ?w1"
    by blast
  from c obtain n where n: "nat (lru_maxSize l) = Suc n"
    by (cases "nat (lru_maxSize l)") auto
  have s1: "\<forall>x\<in>set (drop (nat (lru_maxSize l)) (llist ?w1)). \<forall>kv. lelems ?w1 x = Some kv \<longrightarrow>
      \<not> (kvM kv = lru_m l \<and> kvKey kv = k)"
    using st f by (auto simp: n dest!: in_set_dropD)
  from lru_evict_map [OF d1 e1 c0 s1] w'(1)
  have "map_of (lmaps w' (lru_m l)) k = map_of (lmaps ?w1 (lru_m l)) k"
    by simp
  then have a: "map_of (lmaps w' (lru_m l)) k = Some (lfresh w)"
    using m by (simp add: map_add_def)
  have "lru_LoadOrStore l k v w = (w', Inr (v, False))"
    using m w'(1) by (simp add: lru_LoadOrStore_def Let_def)
  moreover have "lelems w' (lfresh w) = Some \<lparr>kvM = lru_m l, kvKey = k, kvValue = v\<rparr>"
    using w'(3) by simp
  moreover have "\<exists>rest. llist w' = lfresh w # rest"
    using w'(2) by (simp add: n)
  ultimately show ?thesis
    using a by blast
qed

lemma lru_Cache_LoadOrCall_hit:
  assumes "map_of (lmaps lw (lru_m l)) k = Some e"
    and "lelems lw e = Some kv" and "kvValue kv = LCell True v" and "llist lw = e # rest"
  shows "lru_Cache_LoadOrCall l k g (lw, w) = ((lw, w), Inr v)"
  using assms by (simp add: lru_Cache_LoadOrCall_def lru_LoadOrStore_def list_MoveToFront_def)

lemma lru_Cache_LoadOrCalls_hit:
  assumes "map_of (lmaps lw (lru_m l)) k = Some e"
    and "lelems lw e = Some kv" and "kvValue kv = LCell True v" and "llist lw = e # rest"
  shows "lru_Cache_LoadOrCalls l k gs (lw, w) = ((lw, w), replicate (length gs) (Inr v))"
  by (induction gs) (simp_all add: lru_Cache_LoadOrCall_hit [OF assms])

text \<open>
  Single flight also holds for a \<^verbatim>\<open>Cache\<close> on an \<^verbatim>\<open>LRUMap\<close> of capacity at least 1: the
  new element is at the front of the list, the eviction loop stops before it, and every
  later call finds it there.
\<close>

lemma lru_cache_single_flight:
  assumes m: "map_of (lmaps lw (lru_m l)) k = None" and c: "1 \<le> lru_maxSize l"
    and d: "distinct (llist lw)" and f: "lfresh lw \<notin> set (llist lw)"
    and e: "\<forall>x\<in>set (llist lw). lelems lw x \<noteq> None"
    and st: "\<forall>x\<in>set (llist lw). \<forall>kv. lelems lw x = Some kv \<longrightarrow>
        \<not> (kvM kv = lru_m l \<and> kvKey kv = k)"
  shows "\<exists>lw'. lru_Cache_LoadOrCalls l k (f0 # gs) (lw, w) =
      ((lw', w\<lparr>calls := calls w @ [fid f0]\<rparr>),
       map_sum id LOther (first_result f0) # replicate (length gs) (Inr (LOther (stored f0))))"
proof -
  from lru_LoadOrStore_miss_state [OF m c d f e st, of "LCell False (LOther DNil)"]
  obtain lw1 rest where
    s: "lru_LoadOrStore l k (LCell False (LOther DNil)) lw = (lw1, Inr (LCell False (LOther DNil), False))"
    and a: "map_of (lmaps lw1 (lru_m l)) k = Some (lfresh lw)"
    and b: "lelems lw1 (lfresh lw) =
      Some \<lparr>kvM = lru_m l, kvKey = k, kvValue = LCell False (LOther DNil)\<rparr>"
    and h: "llist lw1 = lfresh lw # rest"
    by blast
  let ?lw2 = "lru_set_cell (lfresh lw) (LCell True (LOther (stored f0))) lw1"
  have first: "lru_Cache_LoadOrCall l k f0 (lw, w) =
      ((?lw2, w\<lparr>calls := calls w @ [fid f0]\<rparr>), map_sum id LOther (first_result f0))"
    using s m
    by (simp add: lru_Cache_LoadOrCall_def lru_cell_elem_def call_def stored_def
        first_result_def split: outcome.splits)
  have a2: "map_of (lmaps ?lw2 (lru_m l)) k = Some (lfresh lw)"
    using a by (simp add: lru_set_cell_def)
  have b2: "lelems ?lw2 (lfresh lw) =
      Some \<lparr>kvM = lru_m l, kvKey = k, kvValue = LCell True (LOther (stored f0))\<rparr>"
    using b by (simp add: lru_set_cell_def)
  have v2: "kvValue \<lparr>kvM = lru_m l, kvKey = k, kvValue = LCell True (LOther (stored f0))\<rparr> =
      LCell True (LOther (stored f0))"
    by simp
  have h2: "llist ?lw2 = lfresh lw # rest"
    using h by (simp add: lru_set_cell_def)
  from lru_Cache_LoadOrCalls_hit [OF a2 b2 v2 h2] first show ?thesis
    by simp
qed

section \<open>Single flight per key\<close>

text \<open>
  Claim C1 (single flight per key), on the backends that keep the entry. A sequence of
  \<^verbatim>\<open>LoadOrCall\<close>s on one fresh cell; a sequence of \<^verbatim>\<open>LoadOrCall\<close>s with one key \<open>k\<close> on
  one cache on a \<^verbatim>\<open>sync.Map\<close> that has no entry for \<open>k\<close>; and such a sequence on one cache
  on an \<^verbatim>\<open>LRUMap\<close> of capacity at least 1 that has no entry for \<open>k\<close> (its list holds
  distinct elements, none of them an element of this map for \<open>k\<close>): the first call invokes
  its compute function \<open>f\<close>, and that is the only invocation the whole sequence makes (the
  call log grows by exactly the one entry \<open>fid f\<close>); the result of \<open>f\<close> is stored; every
  later call returns the stored value, whatever compute function it was given.

  \<^verbatim>\<open>Cache.LoadOrCall\<close> takes any \<^verbatim>\<open>MapInterface\<close>, and on one that drops the entry between
  two calls the later call computes again: with \<^verbatim>\<open>NewLRUMap(l, 0)\<close> the eviction loop of
  \<^verbatim>\<open>LoadOrStore\<close> removes the element it has just stored.
\<close>

theorem single_flight_per_key:
  "Value_LoadOrCalls new_Value (f # gs) w =
     (Value True (stored f), w\<lparr>calls := calls w @ [fid f]\<rparr>,
      first_result f # replicate (length gs) (Inr (stored f)))
   \<and> (sm_Load m k = None \<longrightarrow>
      Cache_LoadOrCalls m k (f # gs) w =
        (m @ [(k, Value True (stored f))], w\<lparr>calls := calls w @ [fid f]\<rparr>,
         first_result f # replicate (length gs) (Inr (stored f))))
   \<and> (map_of (lmaps lw (lru_m l)) k = None \<and> 1 \<le> lru_maxSize l \<and> distinct (llist lw)
        \<and> lfresh lw \<notin> set (llist lw) \<and> (\<forall>x\<in>set (llist lw). lelems lw x \<noteq> None)
        \<and> (\<forall>x\<in>set (llist lw). \<forall>kv. lelems lw x = Some kv \<longrightarrow>
              \<not> (kvM kv = lru_m l \<and> kvKey kv = k)) \<longrightarrow>
      (\<exists>lw'. lru_Cache_LoadOrCalls l k (f # gs) (lw, w) =
         ((lw', w\<lparr>calls := calls w @ [fid f]\<rparr>),
          map_sum id LOther (first_result f) # replicate (length gs) (Inr (LOther (stored f))))))"
proof -
  have a: "Value_LoadOrCalls new_Value (f # gs) w =
     (Value True (stored f), w\<lparr>calls := calls w @ [fid f]\<rparr>,
      first_result f # replicate (length gs) (Inr (stored f)))"
    by (simp add: Value_LoadOrCall_first Value_LoadOrCalls_done)
  have b: "sm_Load m k = None \<longrightarrow>
      Cache_LoadOrCalls m k (f # gs) w =
        (m @ [(k, Value True (stored f))], w\<lparr>calls := calls w @ [fid f]\<rparr>,
         first_result f # replicate (length gs) (Inr (stored f)))"
    by (simp add: sm_Load_def Cache_LoadOrCall_miss Cache_LoadOrCalls_hit_new)
  have c: "map_of (lmaps lw (lru_m l)) k = None \<and> 1 \<le> lru_maxSize l \<and> distinct (llist lw)
        \<and> lfresh lw \<notin> set (llist lw) \<and> (\<forall>x\<in>set (llist lw). lelems lw x \<noteq> None)
        \<and> (\<forall>x\<in>set (llist lw). \<forall>kv. lelems lw x = Some kv \<longrightarrow>
              \<not> (kvM kv = lru_m l \<and> kvKey kv = k)) \<longrightarrow>
      (\<exists>lw'. lru_Cache_LoadOrCalls l k (f # gs) (lw, w) =
         ((lw', w\<lparr>calls := calls w @ [fid f]\<rparr>),
          map_sum id LOther (first_result f) # replicate (length gs) (Inr (LOther (stored f)))))"
    using lru_cache_single_flight [of lw l k f gs w] by blast
  from a b c show ?thesis
    by blast
qed

theorem single_flight_per_key_witness:
  "sm_Load [] (KInt 1) = None \<and>
   Cache_LoadOrCalls [] (KInt 1)
     [\<lparr>fid = 0, out = Returns (DStr ''one'')\<rparr>, \<lparr>fid = 1, out = Returns (DStr ''not one'')\<rparr>]
     \<lparr>calls = [], currentSize = 0, draws = 0, ranges = 0, range_order = \<lambda>n i. 0\<rparr> =
     ([(KInt 1, Value True (DStr ''one''))], \<lparr>calls = [0], currentSize = 0, draws = 0, ranges = 0, range_order = \<lambda>n i. 0\<rparr>,
      [Inr (DStr ''one''), Inr (DStr ''one'')])
   \<and> (\<exists>lw'. lru_Cache_LoadOrCalls \<lparr>lru_m = 0, lru_maxSize = 1\<rparr> (KInt 1)
     [\<lparr>fid = 0, out = Returns (DStr ''one'')\<rparr>, \<lparr>fid = 1, out = Returns (DStr ''not one'')\<rparr>]
     (\<lparr>llist = [], lelems = \<lambda>a. None, lmaps = \<lambda>a. [], lfresh = 0\<rparr>, \<lparr>calls = [], currentSize = 0, draws = 0, ranges = 0, range_order = \<lambda>n i. 0\<rparr>) =
     ((lw', \<lparr>calls = [0], currentSize = 0, draws = 0, ranges = 0, range_order = \<lambda>n i. 0\<rparr>),
      [Inr (LOther (DStr ''one'')), Inr (LOther (DStr ''one''))]))"
proof -
  let ?lw = "\<lparr>llist = [], lelems = \<lambda>a. None, lmaps = \<lambda>a. [], lfresh = 0\<rparr>"
  let ?l = "\<lparr>lru_m = 0, lru_maxSize = 1\<rparr>"
  have h: "map_of (lmaps ?lw (lru_m ?l)) (KInt 1) = None \<and> 1 \<le> lru_maxSize ?l
        \<and> distinct (llist ?lw)
        \<and> lfresh ?lw \<notin> set (llist ?lw) \<and> (\<forall>x\<in>set (llist ?lw). lelems ?lw x \<noteq> None)
        \<and> (\<forall>x\<in>set (llist ?lw). \<forall>kv. lelems ?lw x = Some kv \<longrightarrow>
              \<not> (kvM kv = lru_m ?l \<and> kvKey kv = KInt 1))"
    by simp
  have n: "sm_Load [] (KInt 1) = None"
    by (simp add: sm_Load_def)
  note t = single_flight_per_key [where f = "\<lparr>fid = 0, out = Returns (DStr ''one'')\<rparr>"
      and gs = "[\<lparr>fid = 1, out = Returns (DStr ''not one'')\<rparr>]"
      and w = "\<lparr>calls = [], currentSize = 0, draws = 0, ranges = 0, range_order = \<lambda>n i. 0\<rparr>"
      and m = "[]" and k = "KInt 1" and lw = ?lw and l = ?l]
  from t n have a: "Cache_LoadOrCalls [] (KInt 1)
     [\<lparr>fid = 0, out = Returns (DStr ''one'')\<rparr>, \<lparr>fid = 1, out = Returns (DStr ''not one'')\<rparr>]
     \<lparr>calls = [], currentSize = 0, draws = 0, ranges = 0, range_order = \<lambda>n i. 0\<rparr> =
     ([(KInt 1, Value True (DStr ''one''))], \<lparr>calls = [0], currentSize = 0, draws = 0, ranges = 0, range_order = \<lambda>n i. 0\<rparr>,
      [Inr (DStr ''one''), Inr (DStr ''one'')])"
    by (simp add: stored_def first_result_def)
  from t h have b: "\<exists>lw'. lru_Cache_LoadOrCalls ?l (KInt 1)
     [\<lparr>fid = 0, out = Returns (DStr ''one'')\<rparr>, \<lparr>fid = 1, out = Returns (DStr ''not one'')\<rparr>]
     (?lw, \<lparr>calls = [], currentSize = 0, draws = 0, ranges = 0, range_order = \<lambda>n i. 0\<rparr>) =
     ((lw', \<lparr>calls = [0], currentSize = 0, draws = 0, ranges = 0, range_order = \<lambda>n i. 0\<rparr>),
      [Inr (LOther (DStr ''one'')), Inr (LOther (DStr ''one''))])"
    by (simp add: stored_def first_result_def)
  from n a b show ?thesis
    by blast
qed

theorem single_flight_lru_counterexample:
  "snd (lru_Cache_LoadOrCalls \<lparr>lru_m = 0, lru_maxSize = 0\<rparr> (KInt 1)
     [\<lparr>fid = 0, out = Returns (DStr ''one'')\<rparr>, \<lparr>fid = 1, out = Returns (DStr ''not one'')\<rparr>]
     (\<lparr>llist = [], lelems = \<lambda>a. None, lmaps = \<lambda>a. [], lfresh = 0\<rparr>, \<lparr>calls = [], currentSize = 0, draws = 0, ranges = 0, range_order = \<lambda>n i. 0\<rparr>)) =
     [Inr (LOther (DStr ''one'')), Inr (LOther (DStr ''not one''))]
   \<and> calls (snd (fst (lru_Cache_LoadOrCalls \<lparr>lru_m = 0, lru_maxSize = 0\<rparr> (KInt 1)
     [\<lparr>fid = 0, out = Returns (DStr ''one'')\<rparr>, \<lparr>fid = 1, out = Returns (DStr ''not one'')\<rparr>]
     (\<lparr>llist = [], lelems = \<lambda>a. None, lmaps = \<lambda>a. [], lfresh = 0\<rparr>, \<lparr>calls = [], currentSize = 0, draws = 0, ranges = 0, range_order = \<lambda>n i. 0\<rparr>)))) = [0, 1]"
  by (simp add: lru_Cache_LoadOrCall_def lru_LoadOrStore_def lru_evict.simps list_Back_def
      list_Remove_def map_delete_def lru_cell_elem_def lru_set_cell_def call_def Let_def)

section \<open>Reload after \<^verbatim>\<open>Delete\<close> and \<^verbatim>\<open>Prune\<close>\<close>

lemma rr_reload_after_Delete:
  assumes "rr_LoadOrCall intn (fst (rr_Delete r k wd)) k (call f) w = (r', w', res)"
  shows "calls w' = calls w @ [fid f] \<and> res = first_result f"
proof -
  let ?ra = "fst (rr_Delete r k wd)"
  have n: "map_of (rr_m ?ra) k = None"
    by (cases "map_of (rr_m r) k")
      (simp_all add: rr_Delete_eq sm_Load_def map_of_sm_Delete del: rr_Delete.simps)
  let ?rb = "?ra\<lparr>rr_m := rr_m ?ra @ [(k, new_Value)]\<rparr>"
  obtain r2 w2 where ev: "rr_evict_loop intn ?rb 0 (AddInt32 1 w) = (r2, w2)"
    by (cases "rr_evict_loop intn ?rb 0 (AddInt32 1 w)")
  have z5: "(0::nat) \<le> 5"
    by simp
  from rr_evict_loop_frame [OF ev z5] have c: "calls w2 = calls w"
    by (simp add: AddInt32_def)
  from assms n ev have "w' = w2\<lparr>calls := calls w2 @ [fid f]\<rparr>" and "res = first_result f"
    by (auto simp: rr_LoadOrCall_def sm_LoadOrStore_def Value_LoadOrCall_def
        new_Value_def call_def first_result_def split: outcome.splits
        simp del: rr_evict_loop.simps rr_Delete.simps)
  with c show ?thesis
    by simp
qed




end
